theory Spec2Isabelle
  imports Main "HOL-Library.Multiset"
begin

section \<open>IntervalQueue: data model\<close>

text \<open>
  The embedding follows \<^verbatim>\<open>src/src/IntervalQueue.js\<close>. The class is a record of its
  fields; every method takes the object and returns the updated object. The host
  environment that the class relies on (the timers of \<^verbatim>\<open>setTimeout\<close>, the promises
  returned by the queued functions, the microtask queue) is made explicit as further
  fields of the same record, and the execution of the program is a sequence of events
  (\<open>step\<close>) on that record.

  JavaScript values are opaque; they are numbered.
\<close>

type_synonym val = nat

text \<open>How a promise settles: \<^verbatim>\<open>resolve(v)\<close> or \<^verbatim>\<open>reject(e)\<close>.\<close>

datatype outcome = Fulfilled val | Rejected val

text \<open>
  What a call \<^verbatim>\<open>fn(...args)\<close> of a queued function does: it returns a value that is
  not a promise, it throws, or it returns a promise (which the environment settles
  later, see \<open>PromiseSettles\<close>). A queued function is a function from its arguments to
  this behaviour; it does not call back into the queue.
\<close>

datatype behaviour = Returns val | Throws val | ReturnsPromise

type_synonym fn = "val list \<Rightarrow> behaviour"

text \<open>\<^verbatim>\<open>@typedef {[() => any, any[]]} QueuedFunction\<close>\<close>

type_synonym QueuedFunction = "fn \<times> val list"

text \<open>\<^verbatim>\<open>startTimer: 'after' | 'before'\<close>\<close>

datatype timerStart = After | Before

record IntervalQueueOptions =
  awaitLastQueue :: bool
  startTimer :: timerStart
  loop :: bool
  timerForFirst :: bool

text \<open>
  The options object as the caller passes it to the constructor: every property may be
  missing.
\<close>

record rawOptions =
  optAwaitLastQueue :: "bool option"
  optStartTimer :: "timerStart option"
  optLoop :: "bool option"
  optTimerForFirst :: "bool option"

text \<open>
  \<^verbatim>\<open>lastFnResult\<close>: \<^verbatim>\<open>null\<close> at construction, then the value the last call
  returned; \<open>Promise p\<close> is the case \<^verbatim>\<open>lastFnResult instanceof Promise\<close>, \<open>p\<close> indexing
  the promises of the environment.
\<close>

datatype result = Null | Value val | Promise nat

text \<open>
  The callbacks the class attaches to the promise a queued function returned:
  \<^item> \<open>SettleHandle promise\<close>, line 134,
    \<^verbatim>\<open>.then(x => promise.resolve(x)).catch(e => promise.reject(e))\<close>, where \<open>promise\<close>
    is what \<^verbatim>\<open>returnPromises.shift()\<close> gave (\<open>None\<close> for \<^verbatim>\<open>undefined\<close>);
  \<^item> \<open>ArmTimer\<close>, line 140, \<^verbatim>\<open>.finally(() => this._createTimeout())\<close>;
  \<^item> \<open>ResumeTrigger\<close>, line 123, the rest of \<^verbatim>\<open>trigger()\<close> after
    \<^verbatim>\<open>await this.lastFnResult.catch(() => {})\<close>.
\<close>

datatype reaction = SettleHandle "nat option" | ArmTimer | ResumeTrigger

datatype pstate = Pending "reaction list" | Settled outcome

text \<open>
  What an observer of the queue sees, in the order in which it happens. The trace is
  not a field of the class; it records the pushes of \<^verbatim>\<open>add()\<close>, the handle
  \<^verbatim>\<open>add()\<close> returned to an outside caller, the handle whose reference line 129 drops,
  the shifts of lines 125-126, the calls of line 131 and the calls of
  \<^verbatim>\<open>promise.resolve\<close> and \<^verbatim>\<open>promise.reject\<close>.
\<close>

datatype obs =
    Pushed QueuedFunction nat
  | Returned nat
  | Discarded nat
  | Dequeued QueuedFunction "nat option"
  | Invoked QueuedFunction
  | HandleSettled nat outcome

text \<open>
  The fields of the class (lines 30-85), in the order of the constructor; a result
  promise of \<^verbatim>\<open>returnPromises\<close> is the number \<^verbatim>\<open>_createResultPromise()\<close> gave it.
  Then the environment: the armed timers with their delays, the promises returned by
  queued functions, the pending microtasks, and the trace.
\<close>

record state =
  intervalTime :: int
  isTriggering :: bool
  queue :: "QueuedFunction list"
  returnPromises :: "nat list"
  lastFnResult :: result
  options :: IntervalQueueOptions
  isFirst :: bool
  paused :: bool
  currentTimeout :: "nat option"
  timers :: "(nat \<times> int) list"
  nextTimer :: nat
  promises :: "pstate list"
  jobs :: "(reaction \<times> outcome) list"
  nextHandle :: nat
  trace :: "obs list"

section \<open>The constructor and the private helpers\<close>

text \<open>
  Lines 25-86. \<^verbatim>\<open>intervalTime = 2000\<close>,
  \<^verbatim>\<open>awaitLastQueue: options.awaitLastQueue ?? true\<close>,
  \<^verbatim>\<open>startTimer: options.startTimer || 'before'\<close>, \<^verbatim>\<open>loop: options.loop || false\<close>,
  \<^verbatim>\<open>timerForFirst: options.timerForFirst || false\<close>.
\<close>

definition newIntervalQueue :: "int option \<Rightarrow> rawOptions \<Rightarrow> state" where
  "newIntervalQueue t opts =
     \<lparr>intervalTime = (case t of None \<Rightarrow> 2000 | Some n \<Rightarrow> n),
      isTriggering = False,
      queue = [],
      returnPromises = [],
      lastFnResult = Null,
      options =
        \<lparr>awaitLastQueue = (case optAwaitLastQueue opts of None \<Rightarrow> True | Some b \<Rightarrow> b),
         startTimer = (case optStartTimer opts of None \<Rightarrow> Before | Some m \<Rightarrow> m),
         loop = (case optLoop opts of None \<Rightarrow> False | Some b \<Rightarrow> b),
         timerForFirst = (case optTimerForFirst opts of None \<Rightarrow> False | Some b \<Rightarrow> b)\<rparr>,
      isFirst = True,
      paused = False,
      currentTimeout = None,
      timers = [],
      nextTimer = 0,
      promises = [],
      jobs = [],
      nextHandle = 0,
      trace = []\<rparr>"

text \<open>
  \<^verbatim>\<open>_createTimeout()\<close>, lines 151-158: \<^verbatim>\<open>isFirst = false\<close>, and a new timer with the
  current \<^verbatim>\<open>intervalTime\<close> becomes \<^verbatim>\<open>_currentTimeout\<close>. What the timer runs when it
  fires is \<open>timerCallback\<close> below.
\<close>

definition createTimeout :: "state \<Rightarrow> state" where
  "createTimeout s =
     s\<lparr>isFirst := False,
       timers := timers s @ [(nextTimer s, intervalTime s)],
       currentTimeout := Some (nextTimer s),
       nextTimer := Suc (nextTimer s)\<rparr>"

text \<open>\<^verbatim>\<open>_createResultPromise()\<close>, lines 165-175: a new promise, never seen before.\<close>

definition createResultPromise :: "state \<Rightarrow> nat \<times> state" where
  "createResultPromise s = (nextHandle s, s\<lparr>nextHandle := Suc (nextHandle s)\<rparr>)"

text \<open>\<^verbatim>\<open>promise.resolve(x)\<close> and \<^verbatim>\<open>promise.reject(e)\<close> on a result promise.\<close>

definition settleHandle :: "nat \<Rightarrow> outcome \<Rightarrow> state \<Rightarrow> state" where
  "settleHandle h out s = s\<lparr>trace := trace s @ [HandleSettled h out]\<rparr>"

text \<open>The promise a queued function returns: pending, with no callback yet.\<close>

definition newPromise :: "state \<Rightarrow> nat \<times> state" where
  "newPromise s = (length (promises s), s\<lparr>promises := promises s @ [Pending []]\<rparr>)"

text \<open>
  Attaching a callback to a promise (\<^verbatim>\<open>then\<close>, \<^verbatim>\<open>finally\<close>, \<^verbatim>\<open>await\<close>): it waits
  while the promise is pending, and is queued as a microtask at once when the promise
  has settled.
\<close>

definition subscribe :: "nat \<Rightarrow> reaction \<Rightarrow> state \<Rightarrow> state" where
  "subscribe p r s =
     (if p < length (promises s) then
        (case promises s ! p of
           Pending rs \<Rightarrow> s\<lparr>promises := (promises s)[p := Pending (rs @ [r])]\<rparr>
         | Settled out \<Rightarrow> s\<lparr>jobs := jobs s @ [(r, out)]\<rparr>)
      else s)"

text \<open>\<^verbatim>\<open>this.lastFnResult instanceof Promise\<close>\<close>

fun isPromise :: "result \<Rightarrow> bool" where
  "isPromise (Promise p) = True"
| "isPromise _ = False"

text \<open>
  \<^verbatim>\<open>await this.lastFnResult.catch(() => {})\<close>, line 123: \<^verbatim>\<open>trigger()\<close> returns to its
  caller, and its lines 125-143 run when the promise has settled, whatever the outcome.
\<close>

fun await :: "result \<Rightarrow> state \<Rightarrow> state" where
  "await (Promise p) s = subscribe p ResumeTrigger s"
| "await _ s = s"

section \<open>add() and trigger()\<close>

text \<open>
  \<^verbatim>\<open>Array.prototype.shift()\<close> returns the first element, and \<^verbatim>\<open>undefined\<close> on an
  empty array; the array keeps the rest (\<open>tl\<close>, which leaves an empty list empty).
\<close>

definition shiftHead :: "'a list \<Rightarrow> 'a option" where
  "shiftHead xs = (case xs of [] \<Rightarrow> None | x # _ \<Rightarrow> Some x)"

text \<open>
  Lines 131-143 of \<^verbatim>\<open>trigger()\<close>: the call \<^verbatim>\<open>fn(...args)\<close>, the settling of the
  result promise \<open>promise\<close> that line 126 shifted, and the next timer.
  \<^item> \<^verbatim>\<open>trigger()\<close> is an \<^verbatim>\<open>async\<close> function: when the call of line 131 throws,
    \<^verbatim>\<open>trigger()\<close> ends there and the promise it returned is rejected, which no caller
    keeps; the assignment to \<^verbatim>\<open>lastFnResult\<close> does not happen and lines 133-143 do
    not run.
  \<^item> A value that is not a promise settles \<open>promise\<close> at once (line 136); with
    \<open>promise\<close> undefined that line throws, in the same way.
  \<^item> A promise gets the callbacks of line 134, and with \<^verbatim>\<open>startTimer === 'after'\<close>
    the callback of line 140; otherwise the timer is created at once (line 142).
\<close>

definition invoke :: "fn \<Rightarrow> val list \<Rightarrow> nat option \<Rightarrow> state \<Rightarrow> state" where
  "invoke f args promise s =
     (let s3 = s\<lparr>trace := trace s @ [Invoked (f, args)]\<rparr>
      in case f args of
           Throws e \<Rightarrow> s3
         | Returns v \<Rightarrow>
             (case promise of
                None \<Rightarrow> s3\<lparr>lastFnResult := Value v\<rparr>
              | Some h \<Rightarrow>
                  createTimeout
                    (settleHandle h (Fulfilled v) (s3\<lparr>lastFnResult := Value v\<rparr>)))
         | ReturnsPromise \<Rightarrow>
             (let p = fst (newPromise s3);
                  s4 = subscribe p (SettleHandle promise)
                         ((snd (newPromise s3))\<lparr>lastFnResult := Promise p\<rparr>)
              in if startTimer (options s4) = After
                 then subscribe p ArmTimer s4
                 else createTimeout s4))"

text \<open>
  \<^verbatim>\<open>add(fn, ...args)\<close>, lines 93-99, returns the result promise and the object.

  \<^verbatim>\<open>trigger()\<close>, lines 114-144, is in two parts: \<open>trigger\<close> is lines 115-123, up
  to the \<^verbatim>\<open>await\<close>; \<open>dispatch\<close> is lines 125-143, which run at once when line 122
  does not hold and as a microtask otherwise.

  In \<open>dispatch\<close>, on an empty queue line 125 gives \<^verbatim>\<open>undefined\<close>, line 126 still
  shifts \<^verbatim>\<open>returnPromises\<close> and line 127 throws a TypeError, which ends
  \<^verbatim>\<open>trigger()\<close> as above. Line 129 calls \<^verbatim>\<open>this.add\<close>, which calls
  \<^verbatim>\<open>this.trigger\<close> again, and drops what \<^verbatim>\<open>add\<close> returns.
\<close>

function (sequential) add :: "fn \<Rightarrow> val list \<Rightarrow> state \<Rightarrow> nat \<times> state"
  and trigger :: "state \<Rightarrow> state"
  and dispatch :: "state \<Rightarrow> state"
where
  "add f args s =
     (let p = fst (createResultPromise s) in
      (p, trigger ((snd (createResultPromise s))
             \<lparr>queue := queue s @ [(f, args)],
              returnPromises := returnPromises s @ [p],
              trace := trace s @ [Pushed (f, args) p]\<rparr>)))"
| "trigger s =
     (if paused s then s
      else if isTriggering s then s
      else if queue s = [] then s\<lparr>isFirst := True\<rparr>
      else if timerForFirst (options s) \<and> isFirst s
        then createTimeout (s\<lparr>isTriggering := True\<rparr>)
      else if awaitLastQueue (options s) \<and> isPromise (lastFnResult s)
        then await (lastFnResult s) (s\<lparr>isTriggering := True\<rparr>)
      else dispatch (s\<lparr>isTriggering := True\<rparr>))"
| "dispatch s =
     (case queue s of
        [] \<Rightarrow> s\<lparr>returnPromises := tl (returnPromises s)\<rparr>
      | (f, args) # q \<Rightarrow>
          (let promise = shiftHead (returnPromises s);
               s1 = s\<lparr>queue := q, returnPromises := tl (returnPromises s),
                       trace := trace s @ [Dequeued (f, args) promise]\<rparr>;
               s2 = (if loop (options s1)
                     then (let r = add f args s1
                           in (snd r)\<lparr>trace := trace (snd r) @ [Discarded (fst r)]\<rparr>)
                     else s1)
           in invoke f args promise s2))"
  by pat_completeness auto

text \<open>
  The three functions call each other (\<open>dispatch\<close> calls \<open>add\<close>, \<open>add\<close> calls
  \<open>trigger\<close>, \<open>trigger\<close> calls \<open>dispatch\<close>), and the calls end: \<open>trigger\<close> goes on to
  \<open>dispatch\<close> only when \<^verbatim>\<open>isTriggering\<close> is false, and sets it.
\<close>

termination
  apply (relation "measure (\<lambda>x. case x of
           Inl (f, args, s) \<Rightarrow> if isTriggering s then 1 else 4
         | Inr (Inl s) \<Rightarrow> if isTriggering s then 0 else 3
         | Inr (Inr s) \<Rightarrow> if isTriggering s then 2 else 5)")
   apply (auto simp: createResultPromise_def)
  done

section \<open>The public controls\<close>

text \<open>\<^verbatim>\<open>clearTimeout(id)\<close>: nothing for \<^verbatim>\<open>null\<close> and for a timer that has fired.\<close>

definition clearTimeout :: "nat option \<Rightarrow> state \<Rightarrow> state" where
  "clearTimeout t s =
     (case t of
        None \<Rightarrow> s
      | Some i \<Rightarrow> s\<lparr>timers := filter (\<lambda>x. fst x \<noteq> i) (timers s)\<rparr>)"

text \<open>\<^verbatim>\<open>clearLoop()\<close>, lines 180-183.\<close>

definition clearLoop :: "state \<Rightarrow> state" where
  "clearLoop s = (clearTimeout (currentTimeout s) s)\<lparr>isTriggering := False\<rparr>"

text \<open>\<^verbatim>\<open>runNext()\<close>, lines 188-191.\<close>

definition runNext :: "state \<Rightarrow> state" where
  "runNext s = trigger (clearLoop s)"

text \<open>\<^verbatim>\<open>setIntervalTime(time)\<close>, lines 105-108.\<close>

definition setIntervalTime :: "int \<Rightarrow> state \<Rightarrow> state" where
  "setIntervalTime time s = runNext (s\<lparr>intervalTime := time\<rparr>)"

text \<open>\<^verbatim>\<open>pause()\<close>, lines 196-200.\<close>

definition pause :: "state \<Rightarrow> state" where
  "pause s = clearLoop (s\<lparr>paused := True, isFirst := True\<rparr>)"

text \<open>\<^verbatim>\<open>unpause()\<close>, lines 205-208.\<close>

definition unpause :: "state \<Rightarrow> state" where
  "unpause s = trigger (s\<lparr>paused := False\<rparr>)"

section \<open>The environment\<close>

text \<open>The callback of line 153: \<^verbatim>\<open>this.isTriggering = false; this.trigger();\<close>\<close>

definition timerCallback :: "state \<Rightarrow> state" where
  "timerCallback s = trigger (s\<lparr>isTriggering := False\<rparr>)"

text \<open>
  Running a callback of a settled promise. With \<^verbatim>\<open>promise\<close> undefined, the callbacks of
  line 134 throw and nothing is settled.
\<close>

fun runReaction :: "reaction \<Rightarrow> outcome \<Rightarrow> state \<Rightarrow> state" where
  "runReaction (SettleHandle None) out s = s"
| "runReaction (SettleHandle (Some h)) out s = settleHandle h out s"
| "runReaction ArmTimer out s = createTimeout s"
| "runReaction ResumeTrigger out s = dispatch s"

text \<open>
  The promise of a queued function settles: its callbacks become microtasks, in the
  order in which they were attached. A promise settles once.
\<close>

definition settlePromise :: "nat \<Rightarrow> outcome \<Rightarrow> state \<Rightarrow> state" where
  "settlePromise p out s =
     (if p < length (promises s) then
        (case promises s ! p of
           Pending rs \<Rightarrow>
             s\<lparr>promises := (promises s)[p := Settled out],
               jobs := jobs s @ map (\<lambda>r. (r, out)) rs\<rparr>
         | Settled _ \<Rightarrow> s)
      else s)"

text \<open>
  What can happen to a queue: a caller calls a public method (or \<^verbatim>\<open>trigger()\<close>, which
  the tests call directly), an armed timer fires, the promise of a queued function
  settles, with either outcome, or one of the pending microtasks runs. The model
  allows any order of events, any armed timer to fire and any pending microtask to run
  next, so its executions include the real ones, where timers fire in the order of
  their delays and microtasks run first in, first out, before the next timer.
\<close>

datatype event =
    Add fn "val list"
  | SetIntervalTime int
  | Trigger
  | ClearLoop
  | RunNext
  | Pause
  | Unpause
  | TimerFires nat
  | PromiseSettles nat outcome
  | Microtask nat

fun step :: "state \<Rightarrow> event \<Rightarrow> state" where
  "step s (Add f args) =
     (let r = add f args s in (snd r)\<lparr>trace := trace (snd r) @ [Returned (fst r)]\<rparr>)"
| "step s (SetIntervalTime time) = setIntervalTime time s"
| "step s Trigger = trigger s"
| "step s ClearLoop = clearLoop s"
| "step s RunNext = runNext s"
| "step s Pause = pause s"
| "step s Unpause = unpause s"
| "step s (TimerFires t) =
     (if t \<in> set (map fst (timers s))
      then timerCallback (s\<lparr>timers := filter (\<lambda>x. fst x \<noteq> t) (timers s)\<rparr>)
      else s)"
| "step s (PromiseSettles p out) = settlePromise p out s"
| "step s (Microtask n) =
     (if n < length (jobs s)
      then runReaction (fst (jobs s ! n)) (snd (jobs s ! n))
             (s\<lparr>jobs := take n (jobs s) @ drop (Suc n) (jobs s)\<rparr>)
      else s)"

definition run :: "event list \<Rightarrow> state \<Rightarrow> state" where
  "run evs s = foldl step s evs"

section \<open>Reading the trace\<close>

fun pushed :: "obs list \<Rightarrow> (QueuedFunction \<times> nat option) list" where
  "pushed [] = []"
| "pushed (Pushed e h # tr) = (e, Some h) # pushed tr"
| "pushed (_ # tr) = pushed tr"

fun dequeued :: "obs list \<Rightarrow> (QueuedFunction \<times> nat option) list" where
  "dequeued [] = []"
| "dequeued (Dequeued e h # tr) = (e, h) # dequeued tr"
| "dequeued (_ # tr) = dequeued tr"

fun invoked :: "obs list \<Rightarrow> QueuedFunction list" where
  "invoked [] = []"
| "invoked (Invoked e # tr) = e # invoked tr"
| "invoked (_ # tr) = invoked tr"

fun returned :: "obs list \<Rightarrow> nat list" where
  "returned [] = []"
| "returned (Returned h # tr) = h # returned tr"
| "returned (_ # tr) = returned tr"

fun discarded :: "obs list \<Rightarrow> nat list" where
  "discarded [] = []"
| "discarded (Discarded h # tr) = h # discarded tr"
| "discarded (_ # tr) = discarded tr"

fun settlements :: "nat \<Rightarrow> obs list \<Rightarrow> outcome list" where
  "settlements h [] = []"
| "settlements h (HandleSettled h' out # tr) =
     (if h' = h then out # settlements h tr else settlements h tr)"
| "settlements h (_ # tr) = settlements h tr"

text \<open>The entries waiting in the queue, each with the result promise at its index.\<close>

definition waiting :: "state \<Rightarrow> (QueuedFunction \<times> nat option) list" where
  "waiting s = zip (queue s) (map Some (returnPromises s))"


text \<open>
  The callbacks that have been attached and have not run yet: those of the pending
  promises and the microtasks.
\<close>

fun reactions :: "pstate \<Rightarrow> reaction list" where
  "reactions (Pending rs) = rs"
| "reactions (Settled out) = []"

definition pendingReactions :: "state \<Rightarrow> reaction list" where
  "pendingReactions s = concat (map reactions (promises s)) @ map fst (jobs s)"

text \<open>
  Who holds a result promise: it is in \<^verbatim>\<open>returnPromises\<close>, or a callback of line 134
  that has not run yet will settle it, or it has been settled.
\<close>

fun settled :: "obs list \<Rightarrow> nat list" where
  "settled [] = []"
| "settled (HandleSettled h out # tr) = h # settled tr"
| "settled (_ # tr) = settled tr"

fun reactionHandles :: "reaction list \<Rightarrow> nat list" where
  "reactionHandles [] = []"
| "reactionHandles (SettleHandle (Some h) # rs) = h # reactionHandles rs"
| "reactionHandles (_ # rs) = reactionHandles rs"

definition owned :: "state \<Rightarrow> nat multiset" where
  "owned s = mset (returnPromises s) + mset (reactionHandles (pendingReactions s))
             + mset (settled (trace s))"

text \<open>
  The events that need no further call from outside: more entries are added, timers
  fire, promises settle, microtasks run. The other events are the controls
  \<^verbatim>\<open>setIntervalTime\<close>, \<^verbatim>\<open>clearLoop\<close>, \<^verbatim>\<open>runNext\<close>, \<^verbatim>\<open>pause\<close> and \<^verbatim>\<open>unpause\<close>.
\<close>

fun hostEvent :: "event \<Rightarrow> bool" where
  "hostEvent (Add f args) = True"
| "hostEvent (TimerFires t) = True"
| "hostEvent (PromiseSettles p out) = True"
| "hostEvent (Microtask n) = True"
| "hostEvent _ = False"

section \<open>Queues used as examples\<close>

text \<open>
  A queued function whose behaviour is chosen by its arguments: no argument, it returns
  a promise; first argument 0, it throws; otherwise it returns its first argument.
\<close>

definition job :: fn where
  "job args =
     (case args of
        [] \<Rightarrow> ReturnsPromise
      | x # _ \<Rightarrow> if x = 0 then Throws 99 else Returns x)"

definition defaults :: rawOptions where
  "defaults =
     \<lparr>optAwaitLastQueue = None, optStartTimer = None, optLoop = None,
      optTimerForFirst = None\<rparr>"

definition looping :: rawOptions where
  "looping = defaults\<lparr>optLoop := Some True\<rparr>"

text \<open>
  A queue that has run one function returning a promise, seen the promise settle and
  its timer fire on an empty queue: nothing is queued, armed or pending.
\<close>

definition afterSettledPromise :: state where
  "afterSettledPromise =
     run [Add job [], PromiseSettles 0 (Fulfilled 7), Microtask 0, TimerFires 0]
       (newIntervalQueue None defaults)"

text \<open>
  A queue with the \<^verbatim>\<open>loop\<close> option and two entries added while paused, as
  \<^verbatim>\<open>unpause()\<close> hands it to lines 125-143.
\<close>

definition loopingQueue :: state where
  "loopingQueue =
     (run [Pause, Add job [3], Add job [4]] (newIntervalQueue None looping))
       \<lparr>paused := False, isTriggering := True\<rparr>"


text \<open>A new queue, default options, after \<^verbatim>\<open>add\<close> of a function that throws.\<close>

definition afterThrow :: state where
  "afterThrow = run [Add job [0]] (newIntervalQueue None defaults)"

text \<open>The same, and a second entry added.\<close>

definition afterThrowThenAdd :: state where
  "afterThrowThenAdd = run [Add job [0], Add job [5]] (newIntervalQueue None defaults)"

text \<open>
  Default options, interval 500 ms: a function that returns a promise is added and
  runs, a second entry is added, the timer fires while the promise is pending (the
  round waits at line 123), and \<^verbatim>\<open>pause()\<close> is called.
\<close>

definition pausedWhileAwaiting :: state where
  "pausedWhileAwaiting =
     run [Add job [], Add job [2], TimerFires 0, Pause] (newIntervalQueue (Some 500) defaults)"

text \<open>
  Default options: a function that returns a promise and a second entry are added, the
  promise is rejected, the rejection is delivered, the timer fires and the round that
  waited for the promise goes on.
\<close>

definition afterRejection :: state where
  "afterRejection =
     run [Add job [], Add job [5], PromiseSettles 0 (Rejected 9), Microtask 0, TimerFires 0,
          Microtask 0]
       (newIntervalQueue None defaults)"





section \<open>Invariants\<close>

text \<open>
  The entries and result promises pushed so far are those shifted so far followed by
  those waiting, and the two arrays have the same length.
\<close>

abbreviation paired :: "state \<Rightarrow> bool" where
  "paired s \<equiv> length (queue s) = length (returnPromises s)
     \<and> pushed (trace s) = dequeued (trace s) @ waiting s"



text \<open>
  A result promise that nothing refers to any more: it was created, it is not in
  \<^verbatim>\<open>returnPromises\<close>, and no callback that is still to run settles it.
\<close>

abbreviation dropped :: "nat \<Rightarrow> state \<Rightarrow> bool" where
  "dropped h s \<equiv> h < nextHandle s \<and> h \<notin> set (returnPromises s)
     \<and> SettleHandle (Some h) \<notin> set (pendingReactions s)"

abbreviation stays_dropped :: "nat \<Rightarrow> state \<Rightarrow> state \<Rightarrow> bool" where
  "stays_dropped h s s' \<equiv> dropped h s' \<and> settlements h (trace s') = settlements h (trace s)"

text \<open>
  A queue that waits for a timer that does not exist: \<^verbatim>\<open>isTriggering\<close> is set, and
  no timer, microtask or promise is there to clear it.
\<close>

abbreviation stalled :: "state \<Rightarrow> bool" where
  "stalled s \<equiv> isTriggering s \<and> timers s = [] \<and> jobs s = [] \<and> promises s = []"


text \<open>
  No result promise is held twice: the result promises held, together with some
  others \<open>M\<close> held elsewhere, are among those created, each counted once.
\<close>

abbreviation owned_once :: "state \<Rightarrow> nat multiset \<Rightarrow> bool" where
  "owned_once s M \<equiv> owned s + M \<subseteq># mset [0..<nextHandle s]"

section \<open>Auxiliary facts\<close>

declare add.simps [simp del] trigger.simps [simp del] dispatch.simps [simp del]

lemma pushed_append [simp]: "pushed (xs @ ys) = pushed xs @ pushed ys"
  by (induction xs rule: pushed.induct) simp_all

lemma dequeued_append [simp]: "dequeued (xs @ ys) = dequeued xs @ dequeued ys"
  by (induction xs rule: dequeued.induct) simp_all

lemma invoked_append [simp]: "invoked (xs @ ys) = invoked xs @ invoked ys"
  by (induction xs rule: invoked.induct) simp_all

lemma returned_append [simp]: "returned (xs @ ys) = returned xs @ returned ys"
  by (induction xs rule: returned.induct) simp_all

lemma discarded_append [simp]: "discarded (xs @ ys) = discarded xs @ discarded ys"
  by (induction xs rule: discarded.induct) simp_all

lemma settlements_append [simp]:
  "settlements h (xs @ ys) = settlements h xs @ settlements h ys"
  by (induction h xs rule: settlements.induct) simp_all

lemma createTimeout_fields [simp]:
  "queue (createTimeout s) = queue s"
  "returnPromises (createTimeout s) = returnPromises s"
  "trace (createTimeout s) = trace s"
  "options (createTimeout s) = options s"
  "nextHandle (createTimeout s) = nextHandle s"
  "paused (createTimeout s) = paused s"
  "isTriggering (createTimeout s) = isTriggering s"
  "lastFnResult (createTimeout s) = lastFnResult s"
  "promises (createTimeout s) = promises s"
  "jobs (createTimeout s) = jobs s"
  "intervalTime (createTimeout s) = intervalTime s"
  "isFirst (createTimeout s) = False"
  by (simp_all add: createTimeout_def)

lemma settleHandle_fields [simp]:
  "queue (settleHandle h out s) = queue s"
  "returnPromises (settleHandle h out s) = returnPromises s"
  "trace (settleHandle h out s) = trace s @ [HandleSettled h out]"
  "options (settleHandle h out s) = options s"
  "nextHandle (settleHandle h out s) = nextHandle s"
  "paused (settleHandle h out s) = paused s"
  "isTriggering (settleHandle h out s) = isTriggering s"
  "isFirst (settleHandle h out s) = isFirst s"
  "lastFnResult (settleHandle h out s) = lastFnResult s"
  "promises (settleHandle h out s) = promises s"
  "jobs (settleHandle h out s) = jobs s"
  "timers (settleHandle h out s) = timers s"
  "nextTimer (settleHandle h out s) = nextTimer s"
  "currentTimeout (settleHandle h out s) = currentTimeout s"
  "intervalTime (settleHandle h out s) = intervalTime s"
  by (simp_all add: settleHandle_def)

lemma subscribe_fields [simp]:
  "queue (subscribe p r s) = queue s"
  "returnPromises (subscribe p r s) = returnPromises s"
  "trace (subscribe p r s) = trace s"
  "options (subscribe p r s) = options s"
  "nextHandle (subscribe p r s) = nextHandle s"
  "paused (subscribe p r s) = paused s"
  "isTriggering (subscribe p r s) = isTriggering s"
  "isFirst (subscribe p r s) = isFirst s"
  "lastFnResult (subscribe p r s) = lastFnResult s"
  "timers (subscribe p r s) = timers s"
  "nextTimer (subscribe p r s) = nextTimer s"
  "currentTimeout (subscribe p r s) = currentTimeout s"
  "intervalTime (subscribe p r s) = intervalTime s"
  by (simp_all add: subscribe_def split: pstate.splits)

lemma await_fields [simp]:
  "queue (await x s) = queue s"
  "returnPromises (await x s) = returnPromises s"
  "trace (await x s) = trace s"
  "options (await x s) = options s"
  "nextHandle (await x s) = nextHandle s"
  "paused (await x s) = paused s"
  "isTriggering (await x s) = isTriggering s"
  "isFirst (await x s) = isFirst s"
  "lastFnResult (await x s) = lastFnResult s"
  "timers (await x s) = timers s"
  "nextTimer (await x s) = nextTimer s"
  "currentTimeout (await x s) = currentTimeout s"
  "intervalTime (await x s) = intervalTime s"
  by (cases x; simp)+

lemma newPromise_fields [simp]:
  "fst (newPromise s) = length (promises s)"
  "queue (snd (newPromise s)) = queue s"
  "returnPromises (snd (newPromise s)) = returnPromises s"
  "trace (snd (newPromise s)) = trace s"
  "options (snd (newPromise s)) = options s"
  "nextHandle (snd (newPromise s)) = nextHandle s"
  "paused (snd (newPromise s)) = paused s"
  "isTriggering (snd (newPromise s)) = isTriggering s"
  "isFirst (snd (newPromise s)) = isFirst s"
  "timers (snd (newPromise s)) = timers s"
  "nextTimer (snd (newPromise s)) = nextTimer s"
  "currentTimeout (snd (newPromise s)) = currentTimeout s"
  "intervalTime (snd (newPromise s)) = intervalTime s"
  "jobs (snd (newPromise s)) = jobs s"
  "promises (snd (newPromise s)) = promises s @ [Pending []]"
  by (simp_all add: newPromise_def)

lemma createResultPromise_fields [simp]:
  "fst (createResultPromise s) = nextHandle s"
  "snd (createResultPromise s) = s\<lparr>nextHandle := Suc (nextHandle s)\<rparr>"
  by (simp_all add: createResultPromise_def)

lemma invoke_fields [simp]:
  "queue (invoke f args pr s) = queue s"
  "returnPromises (invoke f args pr s) = returnPromises s"
  "options (invoke f args pr s) = options s"
  "nextHandle (invoke f args pr s) = nextHandle s"
  "paused (invoke f args pr s) = paused s"
  "isTriggering (invoke f args pr s) = isTriggering s"
  "intervalTime (invoke f args pr s) = intervalTime s"
  by (simp_all add: invoke_def Let_def split: behaviour.splits option.splits)

lemma invoke_trace [simp]:
  "pushed (trace (invoke f args pr s)) = pushed (trace s)"
  "dequeued (trace (invoke f args pr s)) = dequeued (trace s)"
  "returned (trace (invoke f args pr s)) = returned (trace s)"
  "discarded (trace (invoke f args pr s)) = discarded (trace s)"
  "invoked (trace (invoke f args pr s)) = invoked (trace s) @ [(f, args)]"
  by (simp_all add: invoke_def Let_def split: behaviour.splits option.splits)

lemma invoke_trace_extends:
  "\<exists>post. trace (invoke f args pr s) = trace s @ Invoked (f, args) # post"
  by (simp add: invoke_def Let_def split: behaviour.splits option.splits)

lemma waiting_simps [simp]:
  "waiting (invoke f args pr s) = waiting s"
  "waiting (createTimeout s) = waiting s"
  "waiting (settleHandle h out s) = waiting s"
  "waiting (subscribe p r s) = waiting s"
  "waiting (await x s) = waiting s"
  "waiting (snd (newPromise s)) = waiting s"
  by (simp_all add: waiting_def)

lemma clearLoop_fields [simp]:
  "queue (clearLoop s) = queue s"
  "returnPromises (clearLoop s) = returnPromises s"
  "trace (clearLoop s) = trace s"
  "options (clearLoop s) = options s"
  "nextHandle (clearLoop s) = nextHandle s"
  "paused (clearLoop s) = paused s"
  "isTriggering (clearLoop s) = False"
  "isFirst (clearLoop s) = isFirst s"
  "lastFnResult (clearLoop s) = lastFnResult s"
  "promises (clearLoop s) = promises s"
  "jobs (clearLoop s) = jobs s"
  "nextTimer (clearLoop s) = nextTimer s"
  "currentTimeout (clearLoop s) = currentTimeout s"
  "intervalTime (clearLoop s) = intervalTime s"
  by (simp_all add: clearLoop_def clearTimeout_def split: option.splits)

lemma settlePromise_fields [simp]:
  "queue (settlePromise p out s) = queue s"
  "returnPromises (settlePromise p out s) = returnPromises s"
  "trace (settlePromise p out s) = trace s"
  "options (settlePromise p out s) = options s"
  "nextHandle (settlePromise p out s) = nextHandle s"
  "paused (settlePromise p out s) = paused s"
  "isTriggering (settlePromise p out s) = isTriggering s"
  "isFirst (settlePromise p out s) = isFirst s"
  "lastFnResult (settlePromise p out s) = lastFnResult s"
  "timers (settlePromise p out s) = timers s"
  "nextTimer (settlePromise p out s) = nextTimer s"
  "currentTimeout (settlePromise p out s) = currentTimeout s"
  "intervalTime (settlePromise p out s) = intervalTime s"
  by (simp_all add: settlePromise_def split: pstate.splits)

lemma run_Nil [simp]: "run [] s = s"
  by (simp add: run_def)

lemma run_Cons [simp]: "run (ev # evs) s = run evs (step s ev)"
  by (simp add: run_def)

lemma run_append [simp]: "run (evs @ evs') s = run evs' (run evs s)"
  by (simp add: run_def)

lemma paired_preserved:
  "paired s \<Longrightarrow> paired (snd (add f args s))"
  "paired s1 \<Longrightarrow> paired (trigger s1)"
  "paired s2 \<Longrightarrow> paired (dispatch s2)"
proof (induction f args s and s1 and s2 rule: add_trigger_dispatch.induct)
  case (1 f args s)
  have "paired (s\<lparr>nextHandle := Suc (nextHandle s),
               queue := queue s @ [(f, args)],
               returnPromises := returnPromises s @ [nextHandle s],
               trace := trace s @ [Pushed (f, args) (nextHandle s)]\<rparr>)"
    using "1.prems" by (simp add: waiting_def)
  then show ?case
    using "1.IH" by (simp add: add.simps Let_def)
next
  case (2 s)
  then show ?case
    by (auto simp: trigger.simps[of s] waiting_def)
next
  case (3 s)
  show ?case
  proof (cases "queue s")
    case Nil
    then show ?thesis using "3.prems" by (simp add: dispatch.simps waiting_def)
  next
    case (Cons e q)
    obtain f args where e: "e = (f, args)" by (cases e)
    obtain h hs where hs: "returnPromises s = h # hs"
      using Cons "3.prems" by (cases "returnPromises s") auto
    let ?s1 = "s\<lparr>queue := q, returnPromises := tl (returnPromises s),
                     trace := trace s @ [Dequeued (f, args) (shiftHead (returnPromises s))]\<rparr>"
    have inv1: "paired ?s1"
      using "3.prems" Cons e hs by (simp add: waiting_def shiftHead_def)
    have ih: "paired (snd (add f args ?s1))" if lp: "loop (options s)"
    proof (rule "3.IH"[of e q f args "shiftHead (returnPromises s)" ?s1])
      show "queue s = e # q" by (rule Cons)
      show "(f, args) = e" by (simp add: e)
      show "loop (options ?s1)" using lp by simp
      show "paired ?s1" by (rule inv1)
    qed simp_all
    show ?thesis
      using Cons e inv1 ih
      by (cases "loop (options s)")
         (simp_all add: dispatch.simps[of s] Let_def waiting_def)
  qed
qed

lemma paired_runReaction: "paired s \<Longrightarrow> paired (runReaction r out s)"
  by (cases "(r, out, s)" rule: runReaction.cases) (simp_all add: paired_preserved(3))

lemma paired_step: "paired s \<Longrightarrow> paired (step s ev)"
proof (cases ev)
  case (Add f args)
  assume "paired s"
  then have "paired (snd (add f args s))" by (rule paired_preserved(1))
  then show ?thesis using Add by (simp add: Let_def waiting_def)
next
  case (SetIntervalTime time)
  assume "paired s"
  then have "paired (clearLoop (s\<lparr>intervalTime := time\<rparr>))" by (simp add: waiting_def)
  then show ?thesis
    using SetIntervalTime by (simp add: setIntervalTime_def runNext_def paired_preserved(2))
next
  case ClearLoop
  assume "paired s"
  then show ?thesis using ClearLoop by (simp add: waiting_def)
next
  case RunNext
  assume "paired s"
  then have "paired (clearLoop s)" by (simp add: waiting_def)
  then show ?thesis using RunNext by (simp add: runNext_def paired_preserved(2))
next
  case Pause
  assume "paired s"
  then show ?thesis using Pause by (simp add: pause_def waiting_def)
next
  case Unpause
  assume "paired s"
  then have "paired (s\<lparr>paused := False\<rparr>)" by (simp add: waiting_def)
  then show ?thesis using Unpause by (simp add: unpause_def paired_preserved(2))
next
  case (TimerFires t)
  assume a: "paired s"
  then have "paired (s\<lparr>timers := filter (\<lambda>x. fst x \<noteq> t) (timers s), isTriggering := False\<rparr>)"
    by (simp add: waiting_def)
  then show ?thesis
    using TimerFires a by (simp add: timerCallback_def paired_preserved(2))
next
  case (PromiseSettles p out)
  assume "paired s"
  then show ?thesis using PromiseSettles by (simp add: waiting_def)
next
  case (Microtask n)
  assume a: "paired s"
  let ?s' = "s\<lparr>jobs := take n (jobs s) @ drop (Suc n) (jobs s)\<rparr>"
  from a have "paired ?s'" by (simp add: waiting_def)
  then have "paired (runReaction (fst (jobs s ! n)) (snd (jobs s ! n)) ?s')"
    by (rule paired_runReaction)
  then show ?thesis using Microtask a by simp
next
  case Trigger
  assume "paired s"
  then show ?thesis using Trigger by (simp add: paired_preserved(2))
qed

lemma paired_run: "paired s \<Longrightarrow> paired (run evs s)"
proof (induction evs arbitrary: s)
  case Nil
  then show ?case by simp
next
  case (Cons ev evs)
  from Cons.prems have "paired (step s ev)" by (rule paired_step)
  then show ?case using Cons.IH by simp
qed

lemma paired_new: "paired (newIntervalQueue t opts)"
  by (simp add: newIntervalQueue_def waiting_def)

lemma frame_preserved:
  "options (snd (add f args s)) = options s \<and> fst (add f args s) = nextHandle s
     \<and> Suc (nextHandle s) \<le> nextHandle (snd (add f args s))
     \<and> returned (trace (snd (add f args s))) = returned (trace s)"
  "options (trigger s1) = options s1 \<and> nextHandle s1 \<le> nextHandle (trigger s1)
     \<and> returned (trace (trigger s1)) = returned (trace s1)"
  "options (dispatch s2) = options s2 \<and> nextHandle s2 \<le> nextHandle (dispatch s2)
     \<and> returned (trace (dispatch s2)) = returned (trace s2)"
proof (induction f args s and s1 and s2 rule: add_trigger_dispatch.induct)
  case (1 f args s)
  then show ?case by (simp add: add.simps Let_def)
next
  case (2 s)
  then show ?case by (simp add: trigger.simps[of s])
next
  case (3 s)
  show ?case
  proof (cases "queue s")
    case Nil
    then show ?thesis by (simp add: dispatch.simps)
  next
    case (Cons e q)
    obtain f args where e: "e = (f, args)" by (cases e)
    let ?s1 = "s\<lparr>queue := q, returnPromises := tl (returnPromises s),
                     trace := trace s @ [Dequeued (f, args) (shiftHead (returnPromises s))]\<rparr>"
    have ih: "options (snd (add f args ?s1)) = options ?s1 \<and> fst (add f args ?s1) = nextHandle ?s1
       \<and> Suc (nextHandle ?s1) \<le> nextHandle (snd (add f args ?s1))
       \<and> returned (trace (snd (add f args ?s1))) = returned (trace ?s1)"
      if lp: "loop (options s)"
    proof (rule "3.IH"[of e q f args "shiftHead (returnPromises s)" ?s1])
      show "queue s = e # q" by (rule Cons)
      show "(f, args) = e" by (simp add: e)
      show "loop (options ?s1)" using lp by simp
    qed simp_all
    show ?thesis
      using Cons e ih
      by (cases "loop (options s)") (simp_all add: dispatch.simps[of s] Let_def)
  qed
qed

lemma trace_extends:
  "\<exists>ext. trace (snd (add f args s)) = trace s @ Pushed (f, args) (nextHandle s) # ext"
  "\<exists>ext. trace (trigger s1) = trace s1 @ ext"
  "\<exists>ext. trace (dispatch s2) = trace s2 @ ext"
proof (induction f args s and s1 and s2 rule: add_trigger_dispatch.induct)
  case (1 f args s)
  then show ?case by (simp add: add.simps Let_def)
next
  case (2 s)
  then show ?case by (simp add: trigger.simps[of s])
next
  case (3 s)
  show ?case
  proof (cases "queue s")
    case Nil
    then show ?thesis by (simp add: dispatch.simps)
  next
    case (Cons e q)
    obtain f args where e: "e = (f, args)" by (cases e)
    let ?pr = "shiftHead (returnPromises s)"
    let ?s1 = "s\<lparr>queue := q, returnPromises := tl (returnPromises s),
                     trace := trace s @ [Dequeued (f, args) ?pr]\<rparr>"
    have ih: "\<exists>ext. trace (snd (add f args ?s1)) = trace ?s1 @ Pushed (f, args) (nextHandle ?s1) # ext"
      if lp: "loop (options s)"
    proof (rule "3.IH"[of e q f args ?pr ?s1])
      show "queue s = e # q" by (rule Cons)
      show "(f, args) = e" by (simp add: e)
      show "loop (options ?s1)" using lp by simp
    qed simp_all
    show ?thesis
    proof (cases "loop (options s)")
      case True
      from ih[OF True] obtain ext where
        ext: "trace (snd (add f args ?s1)) = trace ?s1 @ Pushed (f, args) (nextHandle ?s1) # ext" ..
      obtain post where
        "trace (invoke f args ?pr ((snd (add f args ?s1))
            \<lparr>trace := trace (snd (add f args ?s1)) @ [Discarded (fst (add f args ?s1))]\<rparr>))
         = (trace (snd (add f args ?s1)) @ [Discarded (fst (add f args ?s1))]) @ Invoked (f, args) # post"
        using invoke_trace_extends[of f args ?pr "(snd (add f args ?s1))
            \<lparr>trace := trace (snd (add f args ?s1)) @ [Discarded (fst (add f args ?s1))]\<rparr>"]
        by auto
      then show ?thesis
        using Cons e True ext
        by (simp add: dispatch.simps[of s] Let_def)
    next
      case False
      obtain post where
        "trace (invoke f args ?pr ?s1) = trace ?s1 @ Invoked (f, args) # post"
        using invoke_trace_extends[of f args ?pr ?s1] by auto
      then show ?thesis
        using Cons e False
        by (simp add: dispatch.simps[of s] Let_def)
    qed
  qed
qed




















lemma trigger_cases:
  "paused s \<Longrightarrow> trigger s = s"
  "\<not> paused s \<Longrightarrow> isTriggering s \<Longrightarrow> trigger s = s"
  "\<not> paused s \<Longrightarrow> \<not> isTriggering s \<Longrightarrow> queue s = [] \<Longrightarrow> trigger s = s\<lparr>isFirst := True\<rparr>"
  "\<not> paused s \<Longrightarrow> \<not> isTriggering s \<Longrightarrow> queue s \<noteq> [] \<Longrightarrow>
     timerForFirst (options s) \<and> isFirst s \<Longrightarrow>
     trigger s = createTimeout (s\<lparr>isTriggering := True\<rparr>)"
  "\<not> paused s \<Longrightarrow> \<not> isTriggering s \<Longrightarrow> queue s \<noteq> [] \<Longrightarrow>
     \<not> (timerForFirst (options s) \<and> isFirst s) \<Longrightarrow>
     awaitLastQueue (options s) \<and> isPromise (lastFnResult s) \<Longrightarrow>
     trigger s = await (lastFnResult s) (s\<lparr>isTriggering := True\<rparr>)"
  "\<not> paused s \<Longrightarrow> \<not> isTriggering s \<Longrightarrow> queue s \<noteq> [] \<Longrightarrow>
     \<not> (timerForFirst (options s) \<and> isFirst s) \<Longrightarrow>
     \<not> (awaitLastQueue (options s) \<and> isPromise (lastFnResult s)) \<Longrightarrow>
     trigger s = dispatch (s\<lparr>isTriggering := True\<rparr>)"
  by (subst trigger.simps, auto; fail)+

lemma add_guarded:
  "isTriggering s \<or> paused s \<Longrightarrow>
   add f args s = (nextHandle s,
     s\<lparr>nextHandle := Suc (nextHandle s), queue := queue s @ [(f, args)],
       returnPromises := returnPromises s @ [nextHandle s],
       trace := trace s @ [Pushed (f, args) (nextHandle s)]\<rparr>)"
  by (auto simp: add.simps Let_def trigger.simps)

lemma dispatch_Cons:
  "queue s = (f, args) # q \<Longrightarrow>
   dispatch s =
     invoke f args (shiftHead (returnPromises s))
       (if loop (options s)
        then (snd (add f args (s\<lparr>queue := q, returnPromises := tl (returnPromises s),
                 trace := trace s @ [Dequeued (f, args) (shiftHead (returnPromises s))]\<rparr>)))
             \<lparr>trace := trace (snd (add f args (s\<lparr>queue := q, returnPromises := tl (returnPromises s),
                 trace := trace s @ [Dequeued (f, args) (shiftHead (returnPromises s))]\<rparr>)))
                @ [Discarded (nextHandle s)]\<rparr>
        else s\<lparr>queue := q, returnPromises := tl (returnPromises s),
                 trace := trace s @ [Dequeued (f, args) (shiftHead (returnPromises s))]\<rparr>)"
  using frame_preserved(1)[of f args "s\<lparr>queue := q, returnPromises := tl (returnPromises s),
                 trace := trace s @ [Dequeued (f, args) (shiftHead (returnPromises s))]\<rparr>"]
  by (simp add: dispatch.simps[of s] Let_def)

lemma dispatch_guarded:
  assumes q: "queue s = (f, args) # q" and g: "isTriggering s \<or> paused s"
  shows "dispatch s =
     invoke f args (shiftHead (returnPromises s))
       (if loop (options s)
        then s\<lparr>nextHandle := Suc (nextHandle s), queue := q @ [(f, args)],
               returnPromises := tl (returnPromises s) @ [nextHandle s],
               trace := trace s @ [Dequeued (f, args) (shiftHead (returnPromises s)),
                                   Pushed (f, args) (nextHandle s), Discarded (nextHandle s)]\<rparr>
        else s\<lparr>queue := q, returnPromises := tl (returnPromises s),
                 trace := trace s @ [Dequeued (f, args) (shiftHead (returnPromises s))]\<rparr>)"
proof -
  let ?s1 = "s\<lparr>queue := q, returnPromises := tl (returnPromises s),
                 trace := trace s @ [Dequeued (f, args) (shiftHead (returnPromises s))]\<rparr>"
  have "isTriggering ?s1 \<or> paused ?s1" using g by simp
  from add_guarded[OF this, of f args] show ?thesis
    by (simp add: dispatch_Cons[OF q])
qed

lemma dispatch_invokes_head:
  assumes q: "queue s = (f, args) # q" and g: "isTriggering s \<or> paused s"
  shows "invoked (trace (dispatch s)) = invoked (trace s) @ [(f, args)]"
  by (simp add: dispatch_guarded[OF q g])

lemma reactions_update:
  "set (concat (map reactions (ps[p := x]))) \<subseteq> set (concat (map reactions ps)) \<union> set (reactions x)"
proof -
  have "set (ps[p := x]) \<subseteq> insert x (set ps)" by (rule set_update_subset_insert)
  then show ?thesis by auto
qed

lemma reactions_member:
  "x \<in> set ps \<Longrightarrow> set (reactions x) \<subseteq> set (concat (map reactions ps))"
  by auto

lemma pendingReactions_subscribe:
  "set (pendingReactions (subscribe p r s)) \<subseteq> insert r (set (pendingReactions s))"
proof (cases "p < length (promises s)")
  case False
  then show ?thesis by (auto simp: subscribe_def)
next
  case True
  show ?thesis
  proof (cases "promises s ! p")
    case (Pending rs)
    have rs: "set rs \<subseteq> set (concat (map reactions (promises s)))"
      using reactions_member[OF nth_mem[OF True]] Pending by simp
    have "set (concat (map reactions ((promises s)[p := Pending (rs @ [r])])))
        \<subseteq> set (concat (map reactions (promises s))) \<union> set (reactions (Pending (rs @ [r])))"
      by (rule reactions_update)
    then show ?thesis
      using True Pending rs by (auto simp: subscribe_def pendingReactions_def)
  next
    case (Settled out)
    then show ?thesis using True by (auto simp: subscribe_def pendingReactions_def)
  qed
qed

lemma pendingReactions_settlePromise:
  "set (pendingReactions (settlePromise p out s)) \<subseteq> set (pendingReactions s)"
proof (cases "p < length (promises s)")
  case False
  then show ?thesis by (auto simp: settlePromise_def)
next
  case True
  show ?thesis
  proof (cases "promises s ! p")
    case (Pending rs)
    have rs: "set rs \<subseteq> set (concat (map reactions (promises s)))"
      using reactions_member[OF nth_mem[OF True]] Pending by simp
    have "set (concat (map reactions ((promises s)[p := Settled out])))
        \<subseteq> set (concat (map reactions (promises s))) \<union> set (reactions (Settled out))"
      by (rule reactions_update)
    then show ?thesis
      using True Pending rs by (auto simp: settlePromise_def pendingReactions_def)
  next
    case (Settled out')
    then show ?thesis using True by (auto simp: settlePromise_def)
  qed
qed

lemma pendingReactions_simps [simp]:
  "pendingReactions (createTimeout s) = pendingReactions s"
  "pendingReactions (settleHandle h out s) = pendingReactions s"
  "pendingReactions (clearLoop s) = pendingReactions s"
  "set (pendingReactions (snd (newPromise s))) = set (pendingReactions s)"
  by (simp_all add: pendingReactions_def)

lemma pendingReactions_await:
  "set (pendingReactions (await x s)) \<subseteq> insert ResumeTrigger (set (pendingReactions s))"
  by (cases x) (simp_all add: pendingReactions_subscribe subset_insertI)

lemma dropped_invoke:
  assumes d: "dropped h s" and pr: "pr \<noteq> Some h"
  shows "dropped h (invoke f args pr s)
       \<and> settlements h (trace (invoke f args pr s)) = settlements h (trace s)"
proof (cases "f args")
  case (Returns v)
  then show ?thesis using d pr
    by (cases pr) (simp_all add: invoke_def Let_def pendingReactions_def)
next
  case (Throws e)
  then show ?thesis using d by (simp add: invoke_def Let_def pendingReactions_def)
next
  case ReturnsPromise
  let ?s3 = "s\<lparr>trace := trace s @ [Invoked (f, args)]\<rparr>"
  let ?p = "length (promises s)"
  let ?s4 = "subscribe ?p (SettleHandle pr) ((snd (newPromise ?s3))\<lparr>lastFnResult := Promise ?p\<rparr>)"
  have base: "set (pendingReactions ((snd (newPromise ?s3))\<lparr>lastFnResult := Promise ?p\<rparr>))
      = set (pendingReactions s)"
    by (simp add: pendingReactions_def)
  have s4: "set (pendingReactions ?s4) \<subseteq> insert (SettleHandle pr) (set (pendingReactions s))"
    using pendingReactions_subscribe[of ?p "SettleHandle pr" "(snd (newPromise ?s3))\<lparr>lastFnResult := Promise ?p\<rparr>"]
    unfolding base .
  have s5: "set (pendingReactions (subscribe ?p ArmTimer ?s4))
      \<subseteq> insert ArmTimer (insert (SettleHandle pr) (set (pendingReactions s)))"
    using pendingReactions_subscribe[of ?p ArmTimer ?s4] s4 by auto
  have e: "invoke f args pr s =
      (if startTimer (options s) = After then subscribe ?p ArmTimer ?s4 else createTimeout ?s4)"
    using ReturnsPromise by (simp add: invoke_def Let_def)
  show ?thesis
    unfolding e using d pr s4 s5 by auto
qed


lemma pendingReactions_fields [simp]:
  "pendingReactions (s\<lparr>queue := a\<rparr>) = pendingReactions s"
  "pendingReactions (s\<lparr>returnPromises := b\<rparr>) = pendingReactions s"
  "pendingReactions (s\<lparr>trace := c\<rparr>) = pendingReactions s"
  "pendingReactions (s\<lparr>nextHandle := d\<rparr>) = pendingReactions s"
  "pendingReactions (s\<lparr>isTriggering := e\<rparr>) = pendingReactions s"
  "pendingReactions (s\<lparr>isFirst := e\<rparr>) = pendingReactions s"
  "pendingReactions (s\<lparr>paused := e\<rparr>) = pendingReactions s"
  "pendingReactions (s\<lparr>intervalTime := i\<rparr>) = pendingReactions s"
  "pendingReactions (s\<lparr>timers := j\<rparr>) = pendingReactions s"
  by (simp_all add: pendingReactions_def)

lemma dropped_preserved:
  "dropped h s \<Longrightarrow>
     dropped h (snd (add f args s))
     \<and> settlements h (trace (snd (add f args s))) = settlements h (trace s)"
  "dropped h s1 \<Longrightarrow>
     dropped h (trigger s1) \<and> settlements h (trace (trigger s1)) = settlements h (trace s1)"
  "dropped h s2 \<Longrightarrow>
     dropped h (dispatch s2) \<and> settlements h (trace (dispatch s2)) = settlements h (trace s2)"
proof (induction f args s and s1 and s2 rule: add_trigger_dispatch.induct)
  case (1 f args s)
  let ?s' = "s\<lparr>nextHandle := Suc (nextHandle s), queue := queue s @ [(f, args)],
       returnPromises := returnPromises s @ [nextHandle s],
       trace := trace s @ [Pushed (f, args) (nextHandle s)]\<rparr>"
  have d: "dropped h ?s'" using "1.prems" by simp
  have a: "snd (add f args s) = trigger ?s'" by (simp add: add.simps Let_def)
  have "dropped h (trigger ?s') \<and> settlements h (trace (trigger ?s')) = settlements h (trace ?s')"
    using "1.IH" d by simp
  then show ?case unfolding a by simp
next
  case (2 s)
  consider (p) "paused s" | (t) "\<not> paused s" "isTriggering s"
    | (e) "\<not> paused s" "\<not> isTriggering s" "queue s = []"
    | (f) "\<not> paused s" "\<not> isTriggering s" "queue s \<noteq> []" "timerForFirst (options s) \<and> isFirst s"
    | (a) "\<not> paused s" "\<not> isTriggering s" "queue s \<noteq> []" "\<not> (timerForFirst (options s) \<and> isFirst s)"
          "awaitLastQueue (options s) \<and> isPromise (lastFnResult s)"
    | (d) "\<not> paused s" "\<not> isTriggering s" "queue s \<noteq> []" "\<not> (timerForFirst (options s) \<and> isFirst s)"
          "\<not> (awaitLastQueue (options s) \<and> isPromise (lastFnResult s))"
    by blast
  then show ?case
  proof cases
    case p
    then show ?thesis using "2.prems" by (simp add: trigger_cases(1))
  next
    case t
    then show ?thesis using "2.prems" by (simp add: trigger_cases(2))
  next
    case e
    then show ?thesis using "2.prems" by (simp add: trigger_cases(3))
  next
    case f
    then show ?thesis using "2.prems" by (simp add: trigger_cases(4))
  next
    case a
    have "SettleHandle (Some h) \<notin> set (pendingReactions (await (lastFnResult s) (s\<lparr>isTriggering := True\<rparr>)))"
      using pendingReactions_await[of "lastFnResult s" "s\<lparr>isTriggering := True\<rparr>"] "2.prems"
      by auto
    then show ?thesis using a "2.prems" by (simp add: trigger_cases(5))
  next
    case d
    have "dropped h (dispatch (s\<lparr>isTriggering := True\<rparr>))
        \<and> settlements h (trace (dispatch (s\<lparr>isTriggering := True\<rparr>)))
          = settlements h (trace (s\<lparr>isTriggering := True\<rparr>))"
      using "2.IH" d "2.prems" by simp
    then show ?thesis using d by (simp add: trigger_cases(6))
  qed
next
  case (3 s)
  have tl_sub: "set (tl (returnPromises s)) \<subseteq> set (returnPromises s)"
    by (cases "returnPromises s") auto
  show ?case
  proof (cases "queue s")
    case Nil
    then show ?thesis using "3.prems" tl_sub by (auto simp: dispatch.simps[of s])
  next
    case (Cons e q)
    obtain f args where e: "e = (f, args)" by (cases e)
    have q: "queue s = (f, args) # q" using Cons e by simp
    let ?pr = "shiftHead (returnPromises s)"
    let ?s1 = "s\<lparr>queue := q, returnPromises := tl (returnPromises s),
                     trace := trace s @ [Dequeued (f, args) ?pr]\<rparr>"
    have pr: "?pr \<noteq> Some h"
      using "3.prems" by (cases "returnPromises s") (auto simp: shiftHead_def)
    have d1: "dropped h ?s1" using "3.prems" tl_sub by auto
    have s1: "settlements h (trace ?s1) = settlements h (trace s)" by simp
    show ?thesis
    proof (cases "loop (options s)")
      case True
      let ?s2 = "(snd (add f args ?s1))\<lparr>trace := trace (snd (add f args ?s1)) @ [Discarded (nextHandle s)]\<rparr>"
      have ih: "dropped h (snd (add f args ?s1))
          \<and> settlements h (trace (snd (add f args ?s1))) = settlements h (trace ?s1)"
      proof (rule "3.IH"[of e q f args ?pr ?s1])
        show "queue s = e # q" by (rule Cons)
        show "(f, args) = e" by (simp add: e)
        show "loop (options ?s1)" using True by simp
        show "dropped h ?s1" by (rule d1)
      qed simp_all
      then have d2: "dropped h ?s2" and s2: "settlements h (trace ?s2) = settlements h (trace s)"
        by simp_all
      have eq: "dispatch s = invoke f args ?pr ?s2"
        using True by (simp add: dispatch_Cons[OF q])
      show ?thesis
        unfolding eq using dropped_invoke[OF d2 pr, of f args] s2 by simp
    next
      case False
      have eq: "dispatch s = invoke f args ?pr ?s1"
        using False by (simp add: dispatch_Cons[OF q])
      show ?thesis
        unfolding eq using dropped_invoke[OF d1 pr, of f args] s1 by simp
    qed
  qed
qed


lemma dropped_runReaction:
  assumes d: "dropped h s" and r: "r \<noteq> SettleHandle (Some h)"
  shows "stays_dropped h s (runReaction r out s)"
proof (cases r)
  case (SettleHandle x)
  then show ?thesis using d r by (cases x) auto
next
  case ArmTimer
  then show ?thesis using d by simp
next
  case ResumeTrigger
  then show ?thesis using dropped_preserved(3)[OF d] by simp
qed

lemma dropped_step: "dropped h s \<Longrightarrow> stays_dropped h s (step s ev)"
proof (cases ev)
  case (Add f args)
  assume "dropped h s"
  then show ?thesis using Add dropped_preserved(1)[of h s f args] by (simp add: Let_def)
next
  case (SetIntervalTime time)
  assume "dropped h s"
  then have "dropped h (clearLoop (s\<lparr>intervalTime := time\<rparr>))" by simp
  from dropped_preserved(2)[OF this] show ?thesis
    using SetIntervalTime by (simp add: setIntervalTime_def runNext_def)
next
  case ClearLoop
  assume "dropped h s"
  then show ?thesis using ClearLoop by simp
next
  case RunNext
  assume "dropped h s"
  then have "dropped h (clearLoop s)" by simp
  from dropped_preserved(2)[OF this] show ?thesis
    using RunNext by (simp add: runNext_def)
next
  case Pause
  assume "dropped h s"
  then show ?thesis using Pause by (simp add: pause_def)
next
  case Unpause
  assume "dropped h s"
  then have "dropped h (s\<lparr>paused := False\<rparr>)" by simp
  from dropped_preserved(2)[OF this] show ?thesis
    using Unpause by (simp add: unpause_def)
next
  case (TimerFires t)
  assume a: "dropped h s"
  then have "dropped h (s\<lparr>timers := filter (\<lambda>x. fst x \<noteq> t) (timers s), isTriggering := False\<rparr>)"
    by simp
  from dropped_preserved(2)[OF this] show ?thesis
    using TimerFires a by (simp add: timerCallback_def)
next
  case (PromiseSettles p out)
  assume "dropped h s"
  then show ?thesis
    using PromiseSettles pendingReactions_settlePromise[of p out s] by auto
next
  case (Microtask n)
  assume a: "dropped h s"
  show ?thesis
  proof (cases "n < length (jobs s)")
    case False
    then show ?thesis using Microtask a by simp
  next
    case True
    let ?s' = "s\<lparr>jobs := take n (jobs s) @ drop (Suc n) (jobs s)\<rparr>"
    have m: "jobs s ! n \<in> set (jobs s)"
      using True by simp
    have r: "fst (jobs s ! n) \<noteq> SettleHandle (Some h)"
    proof
      assume "fst (jobs s ! n) = SettleHandle (Some h)"
      with m have "SettleHandle (Some h) \<in> fst ` set (jobs s)" by (metis image_eqI)
      then show False using a by (simp add: pendingReactions_def)
    qed
    have "set (take n (jobs s) @ drop (Suc n) (jobs s)) \<subseteq> set (jobs s)"
      using set_take_subset[of n "jobs s"] set_drop_subset[of "Suc n" "jobs s"] by auto
    then have "dropped h ?s'"
      using a by (auto simp: pendingReactions_def)
    from dropped_runReaction[OF this r, of "snd (jobs s ! n)"] show ?thesis
      using Microtask True by simp
  qed
next
  case Trigger
  assume "dropped h s"
  from dropped_preserved(2)[OF this] show ?thesis using Trigger by simp
qed

lemma dropped_run: "dropped h s \<Longrightarrow> stays_dropped h s (run evs s)"
proof (induction evs arbitrary: s)
  case Nil
  then show ?case by simp
next
  case (Cons ev evs)
  from dropped_step[OF Cons.prems] have 1: "stays_dropped h s (step s ev)" .
  then have "stays_dropped h (step s ev) (run evs (step s ev))" using Cons.IH by blast
  with 1 show ?case by simp
qed

lemma stalled_step:
  assumes st: "stalled s" and ev: "hostEvent ev"
  shows "stalled (step s ev) \<and> invoked (trace (step s ev)) = invoked (trace s)
       \<and> (\<exists>new. queue (step s ev) = queue s @ new)"
proof (cases ev)
  case (Add f args)
  then show ?thesis using st by (simp add: Let_def add_guarded)
next
  case (TimerFires t)
  then show ?thesis using st by simp
next
  case (PromiseSettles p out)
  then show ?thesis using st by (simp add: settlePromise_def)
next
  case (Microtask n)
  then show ?thesis using st by simp
qed (use ev in simp_all)

lemma stalled_run:
  "stalled s \<Longrightarrow> list_all hostEvent evs \<Longrightarrow>
     stalled (run evs s) \<and> invoked (trace (run evs s)) = invoked (trace s)
     \<and> (\<exists>new. queue (run evs s) = queue s @ new)"
proof (induction evs arbitrary: s)
  case Nil
  then show ?case by simp
next
  case (Cons ev evs)
  from Cons.prems have ev: "hostEvent ev" and evs: "list_all hostEvent evs" by simp_all
  from stalled_step[OF Cons.prems(1) ev] obtain new where
    1: "stalled (step s ev)" "invoked (trace (step s ev)) = invoked (trace s)"
       "queue (step s ev) = queue s @ new" by blast
  from Cons.IH[OF 1(1) evs] obtain new' where
    2: "stalled (run evs (step s ev))"
       "invoked (trace (run evs (step s ev))) = invoked (trace (step s ev))"
       "queue (run evs (step s ev)) = queue (step s ev) @ new'" by blast
  show ?case using 1 2 by simp
qed










lemma settled_append [simp]: "settled (xs @ ys) = settled xs @ settled ys"
  by (induction xs rule: settled.induct) simp_all

lemma reactionHandles_append [simp]:
  "reactionHandles (xs @ ys) = reactionHandles xs @ reactionHandles ys"
  by (induction xs rule: reactionHandles.induct) simp_all

lemma settlements_count: "length (settlements h tr) = count (mset (settled tr)) h"
  by (induction h tr rule: settlements.induct) simp_all

lemma reactions_update_mset:
  "p < length ps \<Longrightarrow>
   mset (reactionHandles (concat (map reactions (ps[p := x]))))
     + mset (reactionHandles (reactions (ps ! p)))
   = mset (reactionHandles (concat (map reactions ps))) + mset (reactionHandles (reactions x))"
proof (induction ps arbitrary: p)
  case Nil
  then show ?case by simp
next
  case (Cons a ps)
  show ?case
  proof (cases p)
    case 0
    then show ?thesis by simp
  next
    case (Suc k)
    then have "k < length ps" using Cons.prems by simp
    from Cons.IH[OF this] show ?thesis using Suc by simp
  qed
qed

lemma owned_subscribe:
  "owned (subscribe p r s) \<subseteq># owned s + mset (reactionHandles [r])"
proof (cases "p < length (promises s)")
  case False
  then show ?thesis by (simp add: subscribe_def owned_def)
next
  case True
  show ?thesis
  proof (cases "promises s ! p")
    case (Pending rs)
    from reactions_update_mset[OF True, of "Pending (rs @ [r])"] Pending
    have "mset (reactionHandles (concat (map reactions ((promises s)[p := Pending (rs @ [r])]))))
        = mset (reactionHandles (concat (map reactions (promises s)))) + mset (reactionHandles [r])"
      by simp
    then show ?thesis
      using True Pending by (simp add: subscribe_def owned_def pendingReactions_def)
  next
    case (Settled out)
    then show ?thesis using True by (simp add: subscribe_def owned_def pendingReactions_def)
  qed
qed

lemma owned_settlePromise: "owned (settlePromise p out s) = owned s"
proof (cases "p < length (promises s)")
  case False
  then show ?thesis by (simp add: settlePromise_def)
next
  case True
  show ?thesis
  proof (cases "promises s ! p")
    case (Pending rs)
    have m: "map fst (map (\<lambda>r. (r, out)) rs) = rs" by (simp add: comp_def)
    from reactions_update_mset[OF True, of "Settled out"] Pending
    have "mset (reactionHandles (concat (map reactions ((promises s)[p := Settled out]))))
          + mset (reactionHandles rs)
        = mset (reactionHandles (concat (map reactions (promises s))))"
      by simp
    then show ?thesis
      using True Pending m by (simp add: settlePromise_def owned_def pendingReactions_def)
  next
    case (Settled out')
    then show ?thesis using True by (simp add: settlePromise_def)
  qed
qed

lemma owned_fields [simp]:
  "owned (s\<lparr>queue := a\<rparr>) = owned s"
  "owned (s\<lparr>nextHandle := d\<rparr>) = owned s"
  "owned (s\<lparr>isTriggering := e\<rparr>) = owned s"
  "owned (s\<lparr>isFirst := e\<rparr>) = owned s"
  "owned (s\<lparr>paused := e\<rparr>) = owned s"
  "owned (s\<lparr>intervalTime := i\<rparr>) = owned s"
  "owned (s\<lparr>timers := j\<rparr>) = owned s"
  "owned (s\<lparr>lastFnResult := k\<rparr>) = owned s"
  "owned (createTimeout s) = owned s"
  "owned (clearLoop s) = owned s"
  "owned (snd (newPromise s)) = owned s"
  by (simp_all add: owned_def pendingReactions_def)

lemma owned_trace:
  "owned (s\<lparr>trace := trace s @ tr\<rparr>) = owned s + mset (settled tr)"
  by (simp add: owned_def pendingReactions_def)

lemma owned_returnPromises:
  "owned (s\<lparr>returnPromises := hs\<rparr>) + mset (returnPromises s) = owned s + mset hs"
  by (simp add: owned_def pendingReactions_def)

lemma owned_await: "owned (await x s) \<subseteq># owned s"
proof (cases x)
  case (Promise p)
  then show ?thesis using owned_subscribe[of p ResumeTrigger s] by simp
qed simp_all

lemma owned_invoke:
  "owned (invoke f args pr s) \<subseteq># owned s + (case pr of None \<Rightarrow> {#} | Some h \<Rightarrow> {#h#})"
proof (cases "f args")
  case (Returns v)
  then show ?thesis
    by (cases pr) (simp_all add: invoke_def Let_def owned_def pendingReactions_def settleHandle_def)
next
  case (Throws e)
  then show ?thesis
    by (cases pr) (simp_all add: invoke_def Let_def owned_def pendingReactions_def)
next
  case ReturnsPromise
  let ?s3 = "s\<lparr>trace := trace s @ [Invoked (f, args)]\<rparr>"
  let ?p = "length (promises s)"
  let ?s0 = "(snd (newPromise ?s3))\<lparr>lastFnResult := Promise ?p\<rparr>"
  let ?s4 = "subscribe ?p (SettleHandle pr) ?s0"
  have base: "owned ?s0 = owned s"
    by (simp add: owned_def pendingReactions_def)
  have s4: "owned ?s4 \<subseteq># owned s + mset (reactionHandles [SettleHandle pr])"
    using owned_subscribe[of ?p "SettleHandle pr" ?s0] unfolding base .
  have s5: "owned (subscribe ?p ArmTimer ?s4) \<subseteq># owned ?s4"
    using owned_subscribe[of ?p ArmTimer ?s4] by simp
  have e: "invoke f args pr s =
      (if startTimer (options s) = After then subscribe ?p ArmTimer ?s4 else createTimeout ?s4)"
    using ReturnsPromise by (simp add: invoke_def Let_def)
  have r: "mset (reactionHandles [SettleHandle pr]) = (case pr of None \<Rightarrow> {#} | Some h \<Rightarrow> {#h#})"
    by (cases pr) simp_all
  show ?thesis
    unfolding e using s4 s5 r by (auto intro: subset_mset.order_trans)
qed

lemma owned_once_mono:
  "owned s' \<subseteq># owned s \<Longrightarrow> nextHandle s' = nextHandle s \<Longrightarrow> owned_once s M \<Longrightarrow> owned_once s' M"
  by (metis subset_mset.add_right_mono subset_mset.order_trans)

lemma owned_preserved:
  "\<forall>M. owned_once s M \<longrightarrow> owned_once (snd (add f args s)) M"
  "\<forall>M. owned_once s1 M \<longrightarrow> owned_once (trigger s1) M"
  "\<forall>M. owned_once s2 M \<longrightarrow> owned_once (dispatch s2) M"
proof (induction f args s and s1 and s2 rule: add_trigger_dispatch.induct)
  case (1 f args s)
  let ?s' = "s\<lparr>nextHandle := Suc (nextHandle s), queue := queue s @ [(f, args)],
       returnPromises := returnPromises s @ [nextHandle s],
       trace := trace s @ [Pushed (f, args) (nextHandle s)]\<rparr>"
  have a: "snd (add f args s) = trigger ?s'" by (simp add: add.simps Let_def)
  have o: "owned ?s' = owned s + {#nextHandle s#}"
    by (simp add: owned_def pendingReactions_def)
  show ?case
  proof (intro allI impI)
    fix M assume m: "owned_once s M"
    have "owned s + M + {#nextHandle s#} \<subseteq># mset [0..<nextHandle s] + {#nextHandle s#}"
      using m by (rule subset_mset.add_right_mono)
    then have "owned ?s' + M \<subseteq># mset [0..<Suc (nextHandle s)]"
      unfolding o by (simp add: ac_simps)
    then have "owned_once ?s' M" by simp
    moreover have "\<forall>M. owned_once ?s' M \<longrightarrow> owned_once (trigger ?s') M"
      using "1.IH"[OF refl] by (simp only: createResultPromise_fields)
    ultimately show "owned_once (snd (add f args s)) M"
      unfolding a by blast
  qed
next
  case (2 s)
  show ?case
  proof (intro allI impI)
    fix M assume m: "owned_once s M"
    consider (p) "paused s" | (t) "\<not> paused s" "isTriggering s"
      | (e) "\<not> paused s" "\<not> isTriggering s" "queue s = []"
      | (f) "\<not> paused s" "\<not> isTriggering s" "queue s \<noteq> []" "timerForFirst (options s) \<and> isFirst s"
      | (a) "\<not> paused s" "\<not> isTriggering s" "queue s \<noteq> []" "\<not> (timerForFirst (options s) \<and> isFirst s)"
            "awaitLastQueue (options s) \<and> isPromise (lastFnResult s)"
      | (d) "\<not> paused s" "\<not> isTriggering s" "queue s \<noteq> []" "\<not> (timerForFirst (options s) \<and> isFirst s)"
            "\<not> (awaitLastQueue (options s) \<and> isPromise (lastFnResult s))"
      by blast
    then show "owned_once (trigger s) M"
    proof cases
      case p
      then show ?thesis using m by (simp add: trigger_cases(1))
    next
      case t
      then show ?thesis using m by (simp add: trigger_cases(2))
    next
      case e
      then show ?thesis using m by (simp add: trigger_cases(3))
    next
      case f
      then show ?thesis using m by (simp add: trigger_cases(4))
    next
      case a
      have sub: "owned (await (lastFnResult s) (s\<lparr>isTriggering := True\<rparr>)) \<subseteq># owned s"
        using owned_await[of "lastFnResult s" "s\<lparr>isTriggering := True\<rparr>"] by simp
      have "owned_once (await (lastFnResult s) (s\<lparr>isTriggering := True\<rparr>)) M"
        by (rule owned_once_mono[OF sub _ m]) simp
      then show ?thesis using a by (simp add: trigger_cases(5))
    next
      case d
      have "owned_once (s\<lparr>isTriggering := True\<rparr>) M" using m by simp
      then have "owned_once (dispatch (s\<lparr>isTriggering := True\<rparr>)) M"
        using "2.IH"[OF d] by blast
      then show ?thesis using d by (simp add: trigger_cases(6))
    qed
  qed
next
  case (3 s)
  show ?case
  proof (intro allI impI)
    fix M assume m: "owned_once s M"
    show "owned_once (dispatch s) M"
    proof (cases "queue s")
      case Nil
      have sub: "owned (s\<lparr>returnPromises := tl (returnPromises s)\<rparr>) \<subseteq># owned s"
        by (cases "returnPromises s") (simp_all add: owned_def pendingReactions_def)
      have "owned_once (s\<lparr>returnPromises := tl (returnPromises s)\<rparr>) M"
        by (rule owned_once_mono[OF sub _ m]) simp
      then show ?thesis
        using Nil by (simp add: dispatch.simps[of s])
    next
      case (Cons e q)
      obtain f args where e: "e = (f, args)" by (cases e)
      have q: "queue s = (f, args) # q" using Cons e by simp
      let ?pr = "shiftHead (returnPromises s)"
      let ?H = "case ?pr of None \<Rightarrow> {#} | Some h \<Rightarrow> {#h#}"
      let ?s1 = "s\<lparr>queue := q, returnPromises := tl (returnPromises s),
                       trace := trace s @ [Dequeued (f, args) ?pr]\<rparr>"
      have o1: "owned ?s1 + ?H = owned s"
        by (cases "returnPromises s") (simp_all add: owned_def pendingReactions_def shiftHead_def)
      have e1: "owned ?s1 + (?H + M) = owned s + M"
        using o1 by (metis add.assoc)
      have nh: "nextHandle ?s1 = nextHandle s" by simp
      have m1: "owned_once ?s1 (?H + M)"
        unfolding e1 nh by (rule m)
      show ?thesis
      proof (cases "loop (options s)")
        case True
        let ?s2 = "(snd (add f args ?s1))\<lparr>trace := trace (snd (add f args ?s1)) @ [Discarded (nextHandle s)]\<rparr>"
        have ih: "\<forall>M. owned_once ?s1 M \<longrightarrow> owned_once (snd (add f args ?s1)) M"
        proof (rule "3.IH"[of e q f args ?pr ?s1])
          show "queue s = e # q" by (rule Cons)
          show "(f, args) = e" by (simp add: e)
          show "loop (options ?s1)" using True by simp
        qed simp_all
        have m2': "owned_once (snd (add f args ?s1)) (?H + M)"
          by (rule ih[rule_format, OF m1])
        have o2: "owned ?s2 = owned (snd (add f args ?s1))"
          by (simp add: owned_def pendingReactions_def)
        have n2: "nextHandle ?s2 = nextHandle (snd (add f args ?s1))" by simp
        have m2: "owned_once ?s2 (?H + M)"
          unfolding o2 n2 by (rule m2')
        have eq: "dispatch s = invoke f args ?pr ?s2"
          using True by (simp add: dispatch_Cons[OF q])
        have "owned (invoke f args ?pr ?s2) + M \<subseteq># (owned ?s2 + ?H) + M"
          using owned_invoke[of f args ?pr ?s2] by (rule subset_mset.add_right_mono)
        then have "owned (invoke f args ?pr ?s2) + M \<subseteq># owned ?s2 + (?H + M)"
          unfolding add.assoc .
        then have "owned (invoke f args ?pr ?s2) + M \<subseteq># mset [0..<nextHandle ?s2]"
          using m2 by (rule subset_mset.order_trans)
        moreover have "nextHandle (invoke f args ?pr ?s2) = nextHandle ?s2"
          by (rule invoke_fields)
        ultimately show ?thesis
          unfolding eq by (simp only:)
      next
        case False
        have eq: "dispatch s = invoke f args ?pr ?s1"
          using False by (simp add: dispatch_Cons[OF q])
        have "owned (invoke f args ?pr ?s1) + M \<subseteq># (owned ?s1 + ?H) + M"
          using owned_invoke[of f args ?pr ?s1] by (rule subset_mset.add_right_mono)
        then have "owned (invoke f args ?pr ?s1) + M \<subseteq># owned ?s1 + (?H + M)"
          unfolding add.assoc .
        then have "owned (invoke f args ?pr ?s1) + M \<subseteq># mset [0..<nextHandle ?s1]"
          using m1 by (rule subset_mset.order_trans)
        moreover have "nextHandle (invoke f args ?pr ?s1) = nextHandle ?s1"
          by (rule invoke_fields)
        ultimately show ?thesis
          unfolding eq by (simp only:)
      qed
    qed
  qed
qed


lemma reactionHandles_Cons:
  "reactionHandles (r # rs) = reactionHandles [r] @ reactionHandles rs"
proof (cases r)
  case (SettleHandle x)
  then show ?thesis by (cases x) simp_all
qed simp_all

lemma owned_job_removed:
  assumes n: "n < length (jobs s)"
  shows "owned (s\<lparr>jobs := take n (jobs s) @ drop (Suc n) (jobs s)\<rparr>)
           + mset (reactionHandles [fst (jobs s ! n)]) = owned s"
proof -
  have "jobs s = take n (jobs s) @ jobs s ! n # drop (Suc n) (jobs s)"
    using n by (rule id_take_nth_drop)
  then have "map fst (jobs s)
      = map fst (take n (jobs s)) @ fst (jobs s ! n) # map fst (drop (Suc n) (jobs s))"
    by (metis list.simps(9) map_append)
  then have "mset (reactionHandles (map fst (jobs s)))
      = mset (reactionHandles (map fst (take n (jobs s) @ drop (Suc n) (jobs s))))
        + mset (reactionHandles [fst (jobs s ! n)])"
    using reactionHandles_Cons[of "fst (jobs s ! n)" "map fst (drop (Suc n) (jobs s))"] by simp
  then show ?thesis by (simp add: owned_def pendingReactions_def)
qed

lemma owned_once_runReaction:
  assumes o: "owned s + mset (reactionHandles [r]) \<subseteq># mset [0..<nextHandle s]"
  shows "owned_once (runReaction r out s) {#}"
proof (cases r)
  case (SettleHandle x)
  show ?thesis
  proof (cases x)
    case None
    then show ?thesis using o SettleHandle by simp
  next
    case (Some h)
    have "owned (settleHandle h out s) = owned s + {#h#}"
      by (simp add: settleHandle_def owned_def pendingReactions_def)
    then show ?thesis using o SettleHandle Some by simp
  qed
next
  case ArmTimer
  then show ?thesis using o by simp
next
  case ResumeTrigger
  then have "owned_once s {#}" using o by simp
  then have "owned_once (dispatch s) {#}" by (rule owned_preserved(3)[rule_format])
  then show ?thesis using ResumeTrigger by simp
qed

lemma owned_once_step:
  assumes o: "owned_once s {#}"
  shows "owned_once (step s ev) {#}"
proof (cases ev)
  case (Add f args)
  have "owned_once (snd (add f args s)) {#}"
    using o by (rule owned_preserved(1)[rule_format])
  moreover have "owned ((snd (add f args s))\<lparr>trace := trace (snd (add f args s)) @ [Returned (fst (add f args s))]\<rparr>)
      = owned (snd (add f args s))"
    by (simp add: owned_def pendingReactions_def)
  ultimately show ?thesis using Add by (simp add: Let_def)
next
  case (SetIntervalTime time)
  have "owned_once (clearLoop (s\<lparr>intervalTime := time\<rparr>)) {#}" using o by simp
  then have "owned_once (trigger (clearLoop (s\<lparr>intervalTime := time\<rparr>))) {#}"
    by (rule owned_preserved(2)[rule_format])
  then show ?thesis using SetIntervalTime by (simp add: setIntervalTime_def runNext_def)
next
  case Trigger
  have "owned_once (trigger s) {#}" using o by (rule owned_preserved(2)[rule_format])
  then show ?thesis using Trigger by simp
next
  case ClearLoop
  then show ?thesis using o by simp
next
  case RunNext
  have "owned_once (clearLoop s) {#}" using o by simp
  then have "owned_once (trigger (clearLoop s)) {#}" by (rule owned_preserved(2)[rule_format])
  then show ?thesis using RunNext by (simp add: runNext_def)
next
  case Pause
  then show ?thesis using o by (simp add: pause_def)
next
  case Unpause
  have "owned_once (s\<lparr>paused := False\<rparr>) {#}" using o by simp
  then have "owned_once (trigger (s\<lparr>paused := False\<rparr>)) {#}"
    by (rule owned_preserved(2)[rule_format])
  then show ?thesis using Unpause by (simp add: unpause_def)
next
  case (TimerFires t)
  let ?s' = "s\<lparr>timers := filter (\<lambda>x. fst x \<noteq> t) (timers s), isTriggering := False\<rparr>"
  have "owned_once ?s' {#}" using o by simp
  then have "owned_once (trigger ?s') {#}" by (rule owned_preserved(2)[rule_format])
  then show ?thesis using TimerFires o by (simp add: timerCallback_def)
next
  case (PromiseSettles p out)
  then show ?thesis using o by (simp add: owned_settlePromise)
next
  case (Microtask n)
  show ?thesis
  proof (cases "n < length (jobs s)")
    case False
    then show ?thesis using Microtask o by simp
  next
    case True
    let ?s' = "s\<lparr>jobs := take n (jobs s) @ drop (Suc n) (jobs s)\<rparr>"
    have "owned ?s' + mset (reactionHandles [fst (jobs s ! n)]) \<subseteq># mset [0..<nextHandle ?s']"
      using owned_job_removed[OF True] o by simp
    then have "owned_once (runReaction (fst (jobs s ! n)) (snd (jobs s ! n)) ?s') {#}"
      by (rule owned_once_runReaction)
    then show ?thesis using Microtask True by simp
  qed
qed

lemma owned_once_run: "owned_once s {#} \<Longrightarrow> owned_once (run evs s) {#}"
proof (induction evs arbitrary: s)
  case Nil
  then show ?case by simp
next
  case (Cons ev evs)
  from Cons.prems have "owned_once (step s ev) {#}" by (rule owned_once_step)
  then show ?case using Cons.IH by simp
qed

lemma owned_once_new: "owned_once (newIntervalQueue t opts) {#}"
  by (simp add: newIntervalQueue_def owned_def pendingReactions_def)

lemma settled_at_most_once:
  "length (settlements h (trace (run evs (newIntervalQueue t opts)))) \<le> 1"
proof -
  let ?s = "run evs (newIntervalQueue t opts)"
  have "owned_once ?s {#}" by (rule owned_once_run[OF owned_once_new])
  then have "count (owned ?s) h \<le> count (mset [0..<nextHandle ?s]) h"
    by (simp add: mset_subset_eq_count)
  moreover have "count (mset (settled (trace ?s))) h \<le> count (owned ?s) h"
    by (simp add: owned_def)
  moreover have "count (mset [0..<nextHandle ?s]) h \<le> 1"
    by (cases "h < nextHandle ?s") simp_all
  ultimately show ?thesis unfolding settlements_count by linarith
qed









text \<open>The equations that evaluate the model on a concrete queue.\<close>

lemmas eval_simps = run_def newIntervalQueue_def defaults_def looping_def job_def
  add.simps trigger.simps dispatch.simps invoke_def shiftHead_def
  createTimeout_def createResultPromise_def settleHandle_def newPromise_def subscribe_def
  clearTimeout_def clearLoop_def runNext_def setIntervalTime_def pause_def unpause_def
  timerCallback_def settlePromise_def waiting_def Let_def

section \<open>clearLoop()\<close>




section \<open>The queue and its result promises\<close>

text \<open>
  C9. In every state that a sequence of events reaches from a new queue, the queue and
  \<^verbatim>\<open>returnPromises\<close> have the same length, and the result promise at index \<open>i\<close> is
  the one that the \<^verbatim>\<open>add()\<close> call of the entry at index \<open>i\<close> created: the waiting
  pairs are the pairs pushed so far, without those already shifted. Every event (the
  public methods \<^verbatim>\<open>add\<close>, \<^verbatim>\<open>setIntervalTime\<close>, \<^verbatim>\<open>clearLoop\<close>, \<^verbatim>\<open>runNext\<close>,
  \<^verbatim>\<open>pause\<close>, \<^verbatim>\<open>unpause\<close>, a timer, a settled promise, a microtask) and every
  trigger round, up to the \<^verbatim>\<open>await\<close> and after it, preserves this.
\<close>

theorem queue_handles_parallel:
  fixes evs t opts
  defines "s \<equiv> run evs (newIntervalQueue t opts)"
  shows "length (queue s) = length (returnPromises s)
       \<and> waiting s = drop (length (dequeued (trace s))) (pushed (trace s))
       \<and> (paired st \<longrightarrow>
            paired (step st ev) \<and> paired (trigger st) \<and> paired (dispatch st))"
proof -
  have p: "paired s" unfolding s_def by (rule paired_run[OF paired_new])
  show ?thesis
    using p paired_step[of st ev] paired_preserved(2)[of st] paired_preserved(3)[of st]
    by simp
qed

theorem queue_handles_parallel_witness:
  "paired (newIntervalQueue None defaults)
   \<and> paired (step (newIntervalQueue None defaults) (Add job [1]))
   \<and> paired (trigger (newIntervalQueue None defaults))
   \<and> paired (dispatch (newIntervalQueue None defaults))"
  using queue_handles_parallel[where st = "newIntervalQueue None defaults" and ev = "Add job [1]"]
  by (simp add: newIntervalQueue_def defaults_def waiting_def)

section \<open>Order of dispatch\<close>




section \<open>The loop option\<close>

text \<open>
  C6. When lines 125-143 run with the \<^verbatim>\<open>loop\<close> option on a queue whose head is
  \<open>(f, args)\<close>, the same function and arguments are pushed again, with a new result
  promise (the counter of result promises goes up), right after the shift and before
  \<open>f\<close> is called: in the trace the push follows the shift, and the call comes later.
  When no other round can start in between (\<^verbatim>\<open>isTriggering\<close> is set, as it is when
  \<^verbatim>\<open>trigger()\<close> reaches these lines without waiting, or the queue is paused), the
  entry is the last of the queue and its result promise the last of
  \<^verbatim>\<open>returnPromises\<close> when \<open>f\<close> is called.
\<close>

theorem loop_requeue_before_invoke:
  assumes lp: "loop (options s)" and q: "queue s = (f, args) # q"
  shows "(\<exists>mid post. trace (dispatch s) =
            trace s @ [Dequeued (f, args) (shiftHead (returnPromises s)),
                       Pushed (f, args) (nextHandle s)] @ mid @ Invoked (f, args) # post)
       \<and> Suc (nextHandle s) \<le> nextHandle (dispatch s)
       \<and> (isTriggering s \<or> paused s \<longrightarrow>
            queue (dispatch s) = q @ [(f, args)]
          \<and> returnPromises (dispatch s) = tl (returnPromises s) @ [nextHandle s]
          \<and> (\<exists>post. trace (dispatch s) =
                trace s @ [Dequeued (f, args) (shiftHead (returnPromises s)),
                           Pushed (f, args) (nextHandle s), Discarded (nextHandle s),
                           Invoked (f, args)] @ post))"
proof (intro conjI impI)
  let ?pr = "shiftHead (returnPromises s)"
  let ?s1 = "s\<lparr>queue := q, returnPromises := tl (returnPromises s),
                 trace := trace s @ [Dequeued (f, args) ?pr]\<rparr>"
  let ?s2 = "(snd (add f args ?s1))\<lparr>trace := trace (snd (add f args ?s1)) @ [Discarded (nextHandle s)]\<rparr>"
  have d: "dispatch s = invoke f args ?pr ?s2"
    using lp by (simp add: dispatch_Cons[OF q])
  obtain ext where ext: "trace (snd (add f args ?s1)) = trace ?s1 @ Pushed (f, args) (nextHandle ?s1) # ext"
    using trace_extends(1)[of f args ?s1] by blast
  obtain post where post: "trace (invoke f args ?pr ?s2) = trace ?s2 @ Invoked (f, args) # post"
    using invoke_trace_extends[of f args ?pr ?s2] by blast
  have "trace (dispatch s) = trace s @ [Dequeued (f, args) ?pr, Pushed (f, args) (nextHandle s)]
          @ (ext @ [Discarded (nextHandle s)]) @ Invoked (f, args) # post"
    using d ext post by simp
  then show "\<exists>mid post. trace (dispatch s) =
            trace s @ [Dequeued (f, args) ?pr, Pushed (f, args) (nextHandle s)] @ mid @ Invoked (f, args) # post"
    by blast
  show "Suc (nextHandle s) \<le> nextHandle (dispatch s)"
    using d frame_preserved(1)[of f args ?s1] by simp
next
  assume g: "isTriggering s \<or> paused s"
  show "queue (dispatch s) = q @ [(f, args)]"
    using lp by (simp add: dispatch_guarded[OF q g])
  show "returnPromises (dispatch s) = tl (returnPromises s) @ [nextHandle s]"
    using lp by (simp add: dispatch_guarded[OF q g])
  let ?s2 = "s\<lparr>nextHandle := Suc (nextHandle s), queue := q @ [(f, args)],
               returnPromises := tl (returnPromises s) @ [nextHandle s],
               trace := trace s @ [Dequeued (f, args) (shiftHead (returnPromises s)),
                                   Pushed (f, args) (nextHandle s), Discarded (nextHandle s)]\<rparr>"
  obtain post where "trace (invoke f args (shiftHead (returnPromises s)) ?s2) = trace ?s2 @ Invoked (f, args) # post"
    using invoke_trace_extends[of f args "shiftHead (returnPromises s)" ?s2] by blast
  then show "\<exists>post. trace (dispatch s) =
                trace s @ [Dequeued (f, args) (shiftHead (returnPromises s)),
                           Pushed (f, args) (nextHandle s), Discarded (nextHandle s),
                           Invoked (f, args)] @ post"
    using lp by (simp add: dispatch_guarded[OF q g])
qed


theorem loop_requeue_before_invoke_witness:
  "loop (options loopingQueue) \<and> queue loopingQueue = (job, [3]) # [(job, [4])]
   \<and> isTriggering loopingQueue
   \<and> queue (dispatch loopingQueue) = [(job, [4])] @ [(job, [3])]
   \<and> returnPromises (dispatch loopingQueue) = [1, 2]
   \<and> trace (dispatch loopingQueue) =
       trace loopingQueue @ [Dequeued (job, [3]) (Some 0), Pushed (job, [3]) 2, Discarded 2,
                             Invoked (job, [3]), HandleSettled 0 (Fulfilled 3)]"
  using loop_requeue_before_invoke[of loopingQueue job "[3]" "[(job, [4])]"]
  by (simp add: loopingQueue_def eval_simps)





section \<open>runNext()\<close>




section \<open>The first entry of an idle queue\<close>

text \<open>
  C3, as the code has it. On a queue that is empty, not triggering, not paused and
  without \<^verbatim>\<open>timerForFirst\<close>, \<^verbatim>\<open>add()\<close> calls the function before it returns,
  provided that line 122 does not hold: \<^verbatim>\<open>awaitLastQueue\<close> is off, or the last result
  is not a promise.
\<close>

theorem add_idle_dispatches_synchronously:
  assumes "queue s = []" and "\<not> isTriggering s" and "\<not> paused s"
    and "\<not> timerForFirst (options s)"
    and "\<not> (awaitLastQueue (options s) \<and> isPromise (lastFnResult s))"
  shows "invoked (trace (snd (add f args s))) = invoked (trace s) @ [(f, args)]"
proof -
  let ?s' = "s\<lparr>nextHandle := Suc (nextHandle s), queue := queue s @ [(f, args)],
       returnPromises := returnPromises s @ [nextHandle s],
       trace := trace s @ [Pushed (f, args) (nextHandle s)]\<rparr>"
  have a: "snd (add f args s) = trigger ?s'"
    by (simp add: add.simps Let_def)
  have t: "trigger ?s' = dispatch (?s'\<lparr>isTriggering := True\<rparr>)"
    using assms by (intro trigger_cases(6)) simp_all
  have "queue (?s'\<lparr>isTriggering := True\<rparr>) = (f, args) # []"
    using assms by simp
  from dispatch_invokes_head[OF this] show ?thesis
    unfolding a t by simp
qed

theorem add_idle_dispatches_synchronously_witness:
  "queue (newIntervalQueue None defaults) = []
   \<and> \<not> isTriggering (newIntervalQueue None defaults)
   \<and> \<not> paused (newIntervalQueue None defaults)
   \<and> \<not> timerForFirst (options (newIntervalQueue None defaults))
   \<and> \<not> (awaitLastQueue (options (newIntervalQueue None defaults))
          \<and> isPromise (lastFnResult (newIntervalQueue None defaults)))
   \<and> invoked (trace (snd (add job [1] (newIntervalQueue None defaults)))) = [(job, [1])]"
  using add_idle_dispatches_synchronously[of "newIntervalQueue None defaults" job "[1]"]
  by (simp add: newIntervalQueue_def defaults_def)

text \<open>
  C3, as stated, fails. The queue \<open>afterSettledPromise\<close> is empty, not triggering, not
  paused and without \<^verbatim>\<open>timerForFirst\<close>; its last result is a promise, settled long
  ago. \<^verbatim>\<open>add()\<close> returns with the entry still in the queue and not called: line 123
  waits, and the call is left to a microtask.
\<close>

theorem add_after_promise_not_synchronous:
  "queue afterSettledPromise = []
   \<and> \<not> isTriggering afterSettledPromise
   \<and> \<not> paused afterSettledPromise
   \<and> \<not> timerForFirst (options afterSettledPromise)
   \<and> timers afterSettledPromise = [] \<and> jobs afterSettledPromise = []
   \<and> promises afterSettledPromise = [Settled (Fulfilled 7)]
   \<and> invoked (trace afterSettledPromise) = [(job, [])]
   \<and> invoked (trace (snd (add job [1] afterSettledPromise))) = [(job, [])]
   \<and> queue (snd (add job [1] afterSettledPromise)) = [(job, [1])]
   \<and> jobs (snd (add job [1] afterSettledPromise)) = [(ResumeTrigger, Fulfilled 7)]"
  by (simp add: afterSettledPromise_def eval_simps)

section \<open>A queued function that throws\<close>

text \<open>
  C1 fails on the code. A function that throws at line 131 ends \<^verbatim>\<open>trigger()\<close> there:
  lines 133-143 do not run, so neither \<^verbatim>\<open>promise.resolve\<close> nor \<^verbatim>\<open>promise.reject\<close> is
  called, and the result promise, already shifted out of \<^verbatim>\<open>returnPromises\<close>, is
  referred to by nothing. On a new queue with default options, after \<^verbatim>\<open>add\<close> of a
  function that throws, the function has been called, the caller holds result promise
  0, and whatever events follow, result promise 0 is never settled. A promise that is
  rejected, by contrast, does reject the result promise (\<open>afterRejection\<close>); and in
  every reachable state, no result promise has been settled twice.
\<close>

theorem sync_throw_handle_never_settles:
  "invoked (trace afterThrow) = [(job, [0])]
   \<and> job [0] = Throws 99
   \<and> returned (trace afterThrow) = [0]
   \<and> settlements 0 (trace (run evs afterThrow)) = []
   \<and> settlements 0 (trace afterRejection) = [Rejected 9]
   \<and> length (settlements h (trace (run evs' (newIntervalQueue t opts)))) \<le> 1"
proof -
  have d: "dropped 0 afterThrow"
    by (simp add: afterThrow_def pendingReactions_def eval_simps)
  have s: "settlements 0 (trace afterThrow) = []"
    by (simp add: afterThrow_def eval_simps)
  have c: "invoked (trace afterThrow) = [(job, [0])] \<and> job [0] = Throws 99
      \<and> returned (trace afterThrow) = [0]"
    by (simp add: afterThrow_def eval_simps)
  have r: "settlements 0 (trace afterRejection) = [Rejected 9]"
    by (simp add: afterRejection_def eval_simps)
  show ?thesis
    using dropped_run[OF d, of evs] s c r settled_at_most_once[of h evs' t opts] by simp
qed

text \<open>
  C2 fails on the code, for the same reason. After the function that throws, no timer
  has been created and \<^verbatim>\<open>isTriggering\<close> is still set. A second entry stays at the
  head of the queue and is never called, however many entries are added, timers fire,
  promises settle or microtasks run: only a control from outside (\<^verbatim>\<open>clearLoop\<close>,
  \<^verbatim>\<open>runNext\<close>, \<^verbatim>\<open>setIntervalTime\<close>, \<^verbatim>\<open>pause\<close>) clears the flag. After a
  promise that is rejected, by contrast, the timer is armed and the second entry is
  called (\<open>afterRejection\<close>).
\<close>

theorem sync_throw_stalls_queue:
  "queue afterThrowThenAdd = [(job, [5])]
   \<and> invoked (trace afterThrowThenAdd) = [(job, [0])]
   \<and> isTriggering afterThrowThenAdd \<and> timers afterThrowThenAdd = []
   \<and> jobs afterThrowThenAdd = [] \<and> promises afterThrowThenAdd = []
   \<and> (list_all hostEvent evs \<longrightarrow>
        invoked (trace (run evs afterThrowThenAdd)) = [(job, [0])]
      \<and> isTriggering (run evs afterThrowThenAdd) \<and> timers (run evs afterThrowThenAdd) = []
      \<and> hd (queue (run evs afterThrowThenAdd)) = (job, [5]))
   \<and> invoked (trace afterRejection) = [(job, []), (job, [5])]
   \<and> timers afterRejection = [(1, 2000)]"
proof -
  have c: "queue afterThrowThenAdd = [(job, [5])]
   \<and> invoked (trace afterThrowThenAdd) = [(job, [0])]
   \<and> isTriggering afterThrowThenAdd \<and> timers afterThrowThenAdd = []
   \<and> jobs afterThrowThenAdd = [] \<and> promises afterThrowThenAdd = []"
    by (simp add: afterThrowThenAdd_def eval_simps)
  then have st: "stalled afterThrowThenAdd" by simp
  have "invoked (trace (run evs afterThrowThenAdd)) = [(job, [0])]
      \<and> isTriggering (run evs afterThrowThenAdd) \<and> timers (run evs afterThrowThenAdd) = []
      \<and> hd (queue (run evs afterThrowThenAdd)) = (job, [5])"
    if "list_all hostEvent evs"
    using stalled_run[OF st that] c by auto
  moreover have "invoked (trace afterRejection) = [(job, []), (job, [5])]
      \<and> timers afterRejection = [(1, 2000)]"
    by (simp add: afterRejection_def eval_simps)
  ultimately show ?thesis using c by blast
qed

theorem sync_throw_stalls_queue_witness:
  "list_all hostEvent [TimerFires 0, Microtask 0, Add job [6], PromiseSettles 0 (Fulfilled 1)]
   \<and> invoked (trace (run [TimerFires 0, Microtask 0, Add job [6], PromiseSettles 0 (Fulfilled 1)]
        afterThrowThenAdd)) = [(job, [0])]
   \<and> queue (run [TimerFires 0, Microtask 0, Add job [6], PromiseSettles 0 (Fulfilled 1)]
        afterThrowThenAdd) = [(job, [5]), (job, [6])]"
  using sync_throw_stalls_queue[of "[TimerFires 0, Microtask 0, Add job [6], PromiseSettles 0 (Fulfilled 1)]"]
  by (simp add: afterThrowThenAdd_def eval_simps)

section \<open>pause()\<close>

text \<open>
  C4 fails on the code. \<^verbatim>\<open>trigger()\<close> reads \<^verbatim>\<open>paused\<close> at line 115 only. A round
  that waits at line 123 when \<^verbatim>\<open>pause()\<close> is called goes on when the promise
  settles: right after \<^verbatim>\<open>pause()\<close> the queue is paused with \<^verbatim>\<open>isFirst\<close> set, no timer
  and the second entry waiting; after the promise has settled and the microtasks have
  run, with no \<^verbatim>\<open>unpause()\<close>, the second entry has been called, a timer is armed and
  \<^verbatim>\<open>isFirst\<close> is false, while \<^verbatim>\<open>paused\<close> is still true.
\<close>

theorem paused_queue_dispatches_after_await:
  "paused pausedWhileAwaiting \<and> isFirst pausedWhileAwaiting \<and> timers pausedWhileAwaiting = []
   \<and> queue pausedWhileAwaiting = [(job, [2])]
   \<and> invoked (trace pausedWhileAwaiting) = [(job, [])]
   \<and> paused (run [PromiseSettles 0 (Fulfilled 5), Microtask 0, Microtask 0] pausedWhileAwaiting)
   \<and> \<not> isFirst (run [PromiseSettles 0 (Fulfilled 5), Microtask 0, Microtask 0] pausedWhileAwaiting)
   \<and> timers (run [PromiseSettles 0 (Fulfilled 5), Microtask 0, Microtask 0] pausedWhileAwaiting)
       = [(1, 500)]
   \<and> queue (run [PromiseSettles 0 (Fulfilled 5), Microtask 0, Microtask 0] pausedWhileAwaiting) = []
   \<and> invoked (trace (run [PromiseSettles 0 (Fulfilled 5), Microtask 0, Microtask 0] pausedWhileAwaiting))
       = [(job, []), (job, [2])]"
  by (simp add: pausedWhileAwaiting_def eval_simps)

end
